theory Spec2Isabelle
  imports Main "HOL-Library.Word" "HOL-Library.Multiset"
begin

section \<open>Data model of qthread.h\<close>

text \<open>
  The three thread states of \<^verbatim>\<open>typedef enum { READY, RUNNING, FINISHED } thread_state\<close>.
\<close>

datatype thread_state = READY | RUNNING | FINISHED

text \<open>
  A \<^verbatim>\<open>thread_t *\<close> is \<open>None\<close> for \<^verbatim>\<open>NULL\<close> or the address of a thread record.
  An address carries the region it lies in: \<open>Heap n\<close> is a block handed out by
  \<^verbatim>\<open>malloc\<close>, \<open>Host n\<close> an object the host program owns (a local or static
  \<^verbatim>\<open>thread_t\<close>, as \<^verbatim>\<open>main_thread\<close> of the example program), which \<^verbatim>\<open>free\<close>
  must not be given. Stack buffers are malloc blocks of their own, named by a number.
  \<^verbatim>\<open>size_t\<close> and the \<^verbatim>\<open>void *\<close> values that threads pass around are 64-bit words
  (the library does no arithmetic on either).
\<close>

datatype addr = Heap nat | Host nat

type_synonym thread_ptr = "addr option"
type_synonym block_ptr = "nat option"
type_synonym size_t = "64 word"
type_synonym void_ptr = "64 word"

text \<open>
  Of \<^verbatim>\<open>ucontext_t\<close> the fields that the library writes: \<^verbatim>\<open>uc_stack.ss_sp\<close>,
  \<^verbatim>\<open>uc_stack.ss_size\<close>, \<^verbatim>\<open>uc_link\<close>, and the entry point installed by
  \<^verbatim>\<open>makecontext\<close> (the wrapper bound to \<^verbatim>\<open>start_routine\<close> and \<^verbatim>\<open>args\<close>).
  The registers saved by \<^verbatim>\<open>getcontext\<close> and \<^verbatim>\<open>swapcontext\<close> are opaque and are
  not represented.
\<close>

record ucontext =
  ss_sp :: block_ptr
  ss_size :: size_t
  uc_link :: thread_ptr
  entry :: "(void_ptr \<times> void_ptr) option"

text \<open>
  \<^verbatim>\<open>struct thread\<close>; the fields \<^verbatim>\<open>context\<close> and \<^verbatim>\<open>next\<close> are written \<open>ctx\<close> and
  \<open>nxt\<close>, both names being Isar keywords.
\<close>

record thread =
  ctx :: ucontext
  stack :: block_ptr
  state :: thread_state
  nxt :: thread_ptr
  retval :: void_ptr

text \<open>
  The globals of qthread.c (\<^verbatim>\<open>stack_size\<close>, \<^verbatim>\<open>thread_list\<close>, \<^verbatim>\<open>current\<close>) and the
  memory they point into: the live thread records and the live stack buffers, each
  buffer with the size it was requested with.
\<close>

record qstate =
  stack_size :: size_t
  thread_list :: thread_ptr
  current :: thread_ptr
  threads :: "addr \<rightharpoonup> thread"
  stacks :: "nat \<rightharpoonup> size_t"

definition DEFAULT_STACK_SIZE :: size_t where
  "DEFAULT_STACK_SIZE = 64 * 1024"

definition init_state :: qstate where
  "init_state = \<lparr>stack_size = DEFAULT_STACK_SIZE, thread_list = None, current = None,
     threads = Map.empty, stacks = Map.empty\<rparr>"

text \<open>
  Undefined behaviour is a value: \<open>BadPointer\<close> is the dereference of \<^verbatim>\<open>NULL\<close> or of a
  pointer to no live record, \<open>BadFree\<close> is \<^verbatim>\<open>free\<close> of something \<^verbatim>\<open>malloc\<close> did not
  return or that is no longer live, \<open>StackInUse\<close> is \<^verbatim>\<open>free\<close> of the stack buffer that
  the caller is executing on. Every operation with a loop yields an option around its
  result: \<open>None\<close> is a loop that never ends.
\<close>

datatype fault = BadPointer | BadFree | StackInUse

definition deref :: "(addr \<rightharpoonup> thread) \<Rightarrow> thread_ptr \<Rightarrow> thread option" where
  "deref h p = (case p of None \<Rightarrow> None | Some a \<Rightarrow> h a)"

section \<open>qthread.c\<close>

definition qthread_set_stacksize :: "size_t \<Rightarrow> qstate \<Rightarrow> qstate" where
  "qthread_set_stacksize sz s = s\<lparr>stack_size := sz\<rparr>"

definition qthread_self :: "qstate \<Rightarrow> thread_ptr" where
  "qthread_self s = current s"

subsection \<open>The scheduler\<close>

text \<open>
  The bootstrap scan (\<^verbatim>\<open>current == NULL\<close>):
  \<^verbatim>\<open>do { if (t->state == READY) break; t = t->next; } while (t != thread_list);\<close>
  The result is the value of \<^verbatim>\<open>t\<close> after the loop.
\<close>

partial_function (option) scan_from_head ::
  "(addr \<rightharpoonup> thread) \<Rightarrow> thread_ptr \<Rightarrow> thread_ptr \<Rightarrow> (fault + thread_ptr) option" where
  "scan_from_head h head t =
     (case deref h t of
        None \<Rightarrow> Some (Inl BadPointer)
      | Some r \<Rightarrow>
          if state r = READY then Some (Inr t)
          else if nxt r \<noteq> head then scan_from_head h head (nxt r)
          else Some (Inr (nxt r)))"

declare scan_from_head.simps [code]

text \<open>
  The normal scan, entered with \<^verbatim>\<open>t = current->next\<close>:
  \<^verbatim>\<open>while (t != current) { if (t->state == READY) break; t = t->next; }\<close>
\<close>

partial_function (option) scan_from_next ::
  "(addr \<rightharpoonup> thread) \<Rightarrow> thread_ptr \<Rightarrow> thread_ptr \<Rightarrow> (fault + thread_ptr) option" where
  "scan_from_next h cur t =
     (if t \<noteq> cur then
        (case deref h t of
           None \<Rightarrow> Some (Inl BadPointer)
         | Some r \<Rightarrow> if state r = READY then Some (Inr t) else scan_from_next h cur (nxt r))
      else Some (Inr t))"

declare scan_from_next.simps [code]

text \<open>
  How a call of the scheduler ends: it returns to its caller, or it leaves through
  \<^verbatim>\<open>setcontext\<close> into the record given, or through \<^verbatim>\<open>swapcontext\<close>, which saves the
  caller in the first record and resumes the second.
\<close>

datatype transfer = Returned | SetContext addr | SwapContext addr addr

text \<open>
  Lines 80 to 92 of qscheduler: the last READY test and the switch. \<^verbatim>\<open>current\<close> is
  assigned before the context is entered; no field of any record is written.
\<close>

definition dispatch :: "qstate \<Rightarrow> thread_ptr \<Rightarrow> fault + transfer \<times> qstate" where
  "dispatch s t =
     (case t of
        None \<Rightarrow> Inl BadPointer
      | Some a \<Rightarrow>
          (case threads s a of
             None \<Rightarrow> Inl BadPointer
           | Some r \<Rightarrow>
               if state r \<noteq> READY then Inr (Returned, s)
               else (case current s of
                       None \<Rightarrow> Inr (SetContext a, s\<lparr>current := t\<rparr>)
                     | Some prev \<Rightarrow>
                         if t \<noteq> current s then Inr (SwapContext prev a, s\<lparr>current := t\<rparr>)
                         else Inr (Returned, s))))"

definition qscheduler :: "qstate \<Rightarrow> (fault + transfer \<times> qstate) option" where
  "qscheduler s =
     (if thread_list s = None then Some (Inr (Returned, s))
      else if current s = None then
        (case scan_from_head (threads s) (thread_list s) (thread_list s) of
           None \<Rightarrow> None
         | Some (Inl e) \<Rightarrow> Some (Inl e)
         | Some (Inr t) \<Rightarrow> Some (dispatch s t))
      else
        (case deref (threads s) (current s) of
           None \<Rightarrow> Some (Inl BadPointer)
         | Some c \<Rightarrow>
             (case scan_from_next (threads s) (current s) (nxt c) of
                None \<Rightarrow> None
              | Some (Inl e) \<Rightarrow> Some (Inl e)
              | Some (Inr t) \<Rightarrow>
                  (case deref (threads s) t of
                     None \<Rightarrow> Some (Inl BadPointer)
                   | Some r \<Rightarrow>
                       if state r \<noteq> READY then
                         (if state c = READY then Some (dispatch s (current s))
                          else Some (Inr (Returned, s)))
                       else Some (dispatch s t)))))"

subsection \<open>qthread_exit\<close>

definition qthread_exit :: "void_ptr \<Rightarrow> qstate \<Rightarrow> (fault + transfer \<times> qstate) option" where
  "qthread_exit v s =
     (case current s of
        None \<Rightarrow> Some (Inl BadPointer)
      | Some c \<Rightarrow>
          (case threads s c of
             None \<Rightarrow> Some (Inl BadPointer)
           | Some r \<Rightarrow>
               qscheduler (s\<lparr>threads := (threads s)(c \<mapsto> r\<lparr>retval := v, state := FINISHED\<rparr>)\<rparr>)))"

subsection \<open>qthread_create\<close>

text \<open>
  Sequencing of steps that may fault or not return.
\<close>

definition andthen ::
  "(fault + 'a) option \<Rightarrow> ('a \<Rightarrow> (fault + 'b) option) \<Rightarrow> (fault + 'b) option" where
  "andthen m f = (case m of None \<Rightarrow> None | Some (Inl e) \<Rightarrow> Some (Inl e) | Some (Inr x) \<Rightarrow> f x)"

text \<open>
  What a call of \<^verbatim>\<open>qthread_create\<close> gets from its environment: the results of
  \<^verbatim>\<open>malloc(sizeof(thread_t))\<close> (the number of a heap block, or \<^verbatim>\<open>NULL\<close>), the
  indeterminate contents of that block, the result of \<^verbatim>\<open>malloc(stack_size)\<close>, and the
  return code of \<^verbatim>\<open>getcontext\<close>.
\<close>

record alloc_env =
  malloc_thread :: "nat option"
  raw_thread :: thread
  malloc_stack :: block_ptr
  getcontext_rc :: int

text \<open>
  The tail search of the insertion, entered with \<^verbatim>\<open>temp = thread_list\<close>:
  \<^verbatim>\<open>while (temp->next != thread_list) temp = temp->next;\<close>
\<close>

partial_function (option) find_tail ::
  "(addr \<rightharpoonup> thread) \<Rightarrow> thread_ptr \<Rightarrow> thread_ptr \<Rightarrow> (fault + thread_ptr) option" where
  "find_tail h head temp =
     (case deref h temp of
        None \<Rightarrow> Some (Inl BadPointer)
      | Some r \<Rightarrow> if nxt r \<noteq> head then find_tail h head (nxt r) else Some (Inr temp))"

declare find_tail.simps [code]

text \<open>
  A write through a pointer: \<^verbatim>\<open>p->field = ...\<close>.
\<close>

definition store ::
  "(addr \<rightharpoonup> thread) \<Rightarrow> thread_ptr \<Rightarrow> (thread \<Rightarrow> thread) \<Rightarrow> fault + (addr \<rightharpoonup> thread)" where
  "store h p f =
     (case p of
        None \<Rightarrow> Inl BadPointer
      | Some a \<Rightarrow> (case h a of None \<Rightarrow> Inl BadPointer | Some r \<Rightarrow> Inr (h(a \<mapsto> f r))))"

text \<open>
  Lines 153 to 164, the insertion into the circular list of the record at \<open>t\<close>, which is
  already in the heap \<open>h\<close>.
\<close>

definition insert_tail ::
  "(addr \<rightharpoonup> thread) \<Rightarrow> thread_ptr \<Rightarrow> thread_ptr \<Rightarrow>
     (fault + thread_ptr \<times> (addr \<rightharpoonup> thread)) option" where
  "insert_tail h head t =
     (if head = None then
        (case store h t (\<lambda>r. r\<lparr>nxt := t\<rparr>) of
           Inl e \<Rightarrow> Some (Inl e)
         | Inr h1 \<Rightarrow> Some (Inr (t, h1)))
      else
        andthen (find_tail h head head) (\<lambda>temp.
          case store h temp (\<lambda>r. r\<lparr>nxt := t\<rparr>) of
            Inl e \<Rightarrow> Some (Inl e)
          | Inr h1 \<Rightarrow>
              (case store h1 t (\<lambda>r. r\<lparr>nxt := head\<rparr>) of
                 Inl e \<Rightarrow> Some (Inl e)
               | Inr h2 \<Rightarrow> Some (Inr (head, h2)))))"

text \<open>
  The result is the \<^verbatim>\<open>int\<close> returned and what was stored in \<^verbatim>\<open>*new_thread\<close>
  (\<open>None\<close> when nothing was stored); \<open>new_thread\<close> says whether the caller passed a
  non-null \<^verbatim>\<open>new_thread\<close>. On the two late failure paths the blocks obtained so far
  are given back with \<^verbatim>\<open>free\<close>.
\<close>

definition qthread_create ::
  "alloc_env \<Rightarrow> bool \<Rightarrow> void_ptr \<Rightarrow> void_ptr \<Rightarrow> qstate \<Rightarrow>
     (fault + (int \<times> thread_ptr option) \<times> qstate) option" where
  "qthread_create env new_thread start_routine args s =
     (case malloc_thread env of
        None \<Rightarrow> Some (Inr ((- 1, None), s))
      | Some n \<Rightarrow>
          (let t = Heap n; h0 = (threads s)(t \<mapsto> raw_thread env) in
           case malloc_stack env of
             None \<Rightarrow> Some (Inr ((- 1, None), s\<lparr>threads := h0(t := None)\<rparr>))
           | Some b \<Rightarrow>
               (let st1 = (stacks s)(b \<mapsto> stack_size s);
                    r1 = (raw_thread env)\<lparr>stack := Some b, state := READY\<rparr>
                in if getcontext_rc env = - 1 then
                     Some (Inr ((- 1, None),
                       s\<lparr>threads := (h0(t \<mapsto> r1))(t := None), stacks := st1(b := None)\<rparr>))
                   else
                     (let r2 = r1\<lparr>ctx := \<lparr>ss_sp = Some b, ss_size = stack_size s,
                                 uc_link = None, entry = Some (start_routine, args)\<rparr>\<rparr>
                      in andthen (insert_tail (h0(t \<mapsto> r2)) (thread_list s) (Some t))
                           (\<lambda>(head, h).
                              Some (Inr ((0, if new_thread then Some (Some t) else None),
                                s\<lparr>thread_list := head, threads := h, stacks := st1\<rparr>)))))))"

subsection \<open>qthread_join\<close>

text \<open>
  The search of the removal, entered with \<^verbatim>\<open>prev = thread_list\<close> and
  \<^verbatim>\<open>curr = thread_list->next\<close>:
  \<^verbatim>\<open>while (curr != thread && curr != thread_list) { prev = curr; curr = curr->next; }\<close>
  The result is the pair of \<^verbatim>\<open>prev\<close> and \<^verbatim>\<open>curr\<close> after the loop.
\<close>

partial_function (option) unlink_scan ::
  "(addr \<rightharpoonup> thread) \<Rightarrow> thread_ptr \<Rightarrow> thread_ptr \<Rightarrow> thread_ptr \<Rightarrow> thread_ptr \<Rightarrow>
     (fault + thread_ptr \<times> thread_ptr) option" where
  "unlink_scan h thread head prev cur =
     (if cur \<noteq> thread \<and> cur \<noteq> head then
        (case deref h cur of
           None \<Rightarrow> Some (Inl BadPointer)
         | Some r \<Rightarrow> unlink_scan h thread head cur (nxt r))
      else Some (Inr (prev, cur)))"

declare unlink_scan.simps [code]

text \<open>
  Lines 188 to 207, the removal of \<open>thread\<close> from the circular list.
\<close>

definition unregister :: "thread_ptr \<Rightarrow> qstate \<Rightarrow> (fault + qstate) option" where
  "unregister thread s =
     (if thread_list s = None then Some (Inr s)
      else
        (case deref (threads s) (thread_list s) of
           None \<Rightarrow> Some (Inl BadPointer)
         | Some hr \<Rightarrow>
             (let prev = thread_list s; cur = nxt hr in
              if prev = cur \<and> prev = thread then Some (Inr (s\<lparr>thread_list := None\<rparr>))
              else
                andthen (unlink_scan (threads s) thread (thread_list s) prev cur)
                  (\<lambda>(prev, cur).
                     if cur = thread then
                       (case deref (threads s) cur of
                          None \<Rightarrow> Some (Inl BadPointer)
                        | Some cr \<Rightarrow>
                            (case store (threads s) prev (\<lambda>r. r\<lparr>nxt := nxt cr\<rparr>) of
                               Inl e \<Rightarrow> Some (Inl e)
                             | Inr h \<Rightarrow>
                                 Some (Inr (s\<lparr>threads := h,
                                   thread_list :=
                                     (if thread_list s = cur then nxt cr else thread_list s)\<rparr>))))
                     else Some (Inr s)))))"

definition free_block :: "(nat \<rightharpoonup> size_t) \<Rightarrow> block_ptr \<Rightarrow> fault + (nat \<rightharpoonup> size_t)" where
  "free_block m p =
     (case p of
        None \<Rightarrow> Inr m
      | Some b \<Rightarrow> if m b \<noteq> None then Inr (m(b := None)) else Inl BadFree)"

definition free_thread ::
  "(addr \<rightharpoonup> thread) \<Rightarrow> thread_ptr \<Rightarrow> fault + (addr \<rightharpoonup> thread)" where
  "free_thread h p =
     (case p of
        None \<Rightarrow> Inr h
      | Some (Host n) \<Rightarrow> Inl BadFree
      | Some (Heap n) \<Rightarrow> if h (Heap n) \<noteq> None then Inr (h(Heap n := None)) else Inl BadFree)"

text \<open>
  The buffer the caller of a library function executes on: the stack of the current
  record. \<open>None\<close> is the process stack, on which the host runs, before the first dispatch
  and as a registered record with \<^verbatim>\<open>stack = NULL\<close>.
\<close>

definition running_stack :: "qstate \<Rightarrow> block_ptr" where
  "running_stack s = (case deref (threads s) (current s) of None \<Rightarrow> None | Some c \<Rightarrow> stack c)"

text \<open>
  The waiting loop of \<^verbatim>\<open>qthread_join\<close>:
  \<^verbatim>\<open>while (thread->state != FINISHED) { qscheduler(); }\<close>
  A call of the scheduler that returns is followed by the next test, so the loop never
  ends when the target is not FINISHED and the scheduler has nothing to switch to. A call
  of the scheduler that transfers control suspends the joiner inside the loop: the
  result is that transfer, and the joiner goes on, when it is resumed, as a join called
  then. The result \<open>Returned\<close> is the loop left with the target FINISHED.
\<close>

partial_function (option) join_wait ::
  "thread_ptr \<Rightarrow> qstate \<Rightarrow> (fault + transfer \<times> qstate) option" where
  "join_wait thread s =
     (case deref (threads s) thread of
        None \<Rightarrow> Some (Inl BadPointer)
      | Some r \<Rightarrow>
          if state r \<noteq> FINISHED then
            (case qscheduler s of
               None \<Rightarrow> None
             | Some (Inl e) \<Rightarrow> Some (Inl e)
             | Some (Inr (tr, s1)) \<Rightarrow>
                 if tr = Returned then join_wait thread s1 else Some (Inr (tr, s1)))
          else Some (Inr (Returned, s)))"

declare join_wait.simps [code]

text \<open>
  \<^verbatim>\<open>qthread_join\<close>. The outcome \<open>Waiting\<close> is the joiner suspended in the waiting loop
  by the transfer given. Once the target is FINISHED the call completes: \<open>Joined\<close>
  carries the \<^verbatim>\<open>int\<close> returned and what was stored in \<^verbatim>\<open>*retval\<close> (\<open>retval_req\<close>
  says whether the caller passed a non-null \<^verbatim>\<open>retval\<close>). The source frees the
  target's stack without asking who runs on it: when it is the caller's own stack, as in
  a join by the running thread of itself, the rest of the call is undefined.
\<close>

datatype join_outcome = Waiting transfer | Joined int "void_ptr option"

definition qthread_join ::
  "thread_ptr \<Rightarrow> bool \<Rightarrow> qstate \<Rightarrow> (fault + join_outcome \<times> qstate) option" where
  "qthread_join thread retval_req s =
     andthen (join_wait thread s) (\<lambda>(tr, s0).
       if tr \<noteq> Returned then Some (Inr (Waiting tr, s0))
       else
         (case deref (threads s0) thread of
            None \<Rightarrow> Some (Inl BadPointer)
          | Some r \<Rightarrow>
              andthen (unregister thread s0) (\<lambda>s1.
                case deref (threads s1) thread of
                  None \<Rightarrow> Some (Inl BadPointer)
                | Some r1 \<Rightarrow>
                    if stack r1 \<noteq> None \<and> stack r1 = running_stack s1 then Some (Inl StackInUse)
                    else
                      (case free_block (stacks s1) (stack r1) of
                         Inl e \<Rightarrow> Some (Inl e)
                       | Inr st \<Rightarrow>
                           (case free_thread (threads s1) thread of
                              Inl e \<Rightarrow> Some (Inl e)
                            | Inr h \<Rightarrow>
                                Some (Inr (Joined 0
                                  (if retval_req then Some (retval r) else None),
                                  s1\<lparr>threads := h, stacks := st\<rparr>)))))))"

subsection \<open>Sequences of library calls\<close>

datatype call =
    SetStacksize size_t
  | Self
  | Create alloc_env bool void_ptr void_ptr
  | Schedule
  | Exit void_ptr
  | Join thread_ptr bool

datatype reply =
    Done
  | Handle thread_ptr
  | Created int "thread_ptr option"
  | Scheduled transfer
  | Exited transfer
  | JoinReply join_outcome

definition api :: "call \<Rightarrow> qstate \<Rightarrow> (fault + reply \<times> qstate) option" where
  "api c s =
     (case c of
        SetStacksize sz \<Rightarrow> Some (Inr (Done, qthread_set_stacksize sz s))
      | Self \<Rightarrow> Some (Inr (Handle (qthread_self s), s))
      | Create env new_thread start_routine args \<Rightarrow>
          andthen (qthread_create env new_thread start_routine args s)
            (\<lambda>((rc, out), s1). Some (Inr (Created rc out, s1)))
      | Schedule \<Rightarrow> andthen (qscheduler s) (\<lambda>(tr, s1). Some (Inr (Scheduled tr, s1)))
      | Exit v \<Rightarrow> andthen (qthread_exit v s) (\<lambda>(tr, s1). Some (Inr (Exited tr, s1)))
      | Join thread retval_req \<Rightarrow>
          andthen (qthread_join thread retval_req s) (\<lambda>(j, s1). Some (Inr (JoinReply j, s1))))"

fun run :: "call list \<Rightarrow> qstate \<Rightarrow> (fault + reply list \<times> qstate) option" where
  "run [] s = Some (Inr ([], s))"
| "run (c # cs) s =
     andthen (api c s) (\<lambda>(r, s1). andthen (run cs s1) (\<lambda>(rs, s2). Some (Inr (r # rs, s2))))"

text \<open>
  The contract of \<^verbatim>\<open>malloc\<close>: a block it returns is not one that is live.
\<close>

definition malloc_fresh :: "alloc_env \<Rightarrow> qstate \<Rightarrow> bool" where
  "malloc_fresh env s =
     ((case malloc_thread env of None \<Rightarrow> True | Some n \<Rightarrow> threads s (Heap n) = None) \<and>
      (case malloc_stack env of None \<Rightarrow> True | Some b \<Rightarrow> stacks s b = None))"

fun call_ok :: "call \<Rightarrow> qstate \<Rightarrow> bool" where
  "call_ok (Create env new_thread start_routine args) s = malloc_fresh env s"
| "call_ok c s = True"

fun calls_ok :: "call list \<Rightarrow> qstate \<Rightarrow> bool" where
  "calls_ok [] s = True"
| "calls_ok (c # cs) s =
     (call_ok c s \<and> (case api c s of Some (Inr (r, s1)) \<Rightarrow> calls_ok cs s1 | _ \<Rightarrow> True))"

section \<open>The operation the header declares and no source file defines\<close>

text \<open>
  Modelled from the spec: \<^verbatim>\<open>qthread_init\<close> is declared in qthread.h, and no source
  file defines it. The spec has it wrap the host's ambient execution context as a thread
  record with \<^verbatim>\<open>stack = null\<close> and insert that record into the registry. The record
  lives in the host's own storage (\<open>Host host\<close>), its fields not named by the spec are
  whatever that storage held (\<open>raw\<close>), it is READY as every record entering the registry
  is, and it is inserted the way \<^verbatim>\<open>qthread_create\<close> inserts, at the tail. On the
  empty registry this is what the example program does by hand before its first
  \<^verbatim>\<open>qthread_create\<close>.
\<close>

definition qthread_init :: "nat \<Rightarrow> thread \<Rightarrow> qstate \<Rightarrow> (fault + qstate) option" where
  "qthread_init host raw s =
     andthen
       (insert_tail ((threads s)(Host host \<mapsto> raw\<lparr>state := READY, stack := None\<rparr>))
          (thread_list s) (Some (Host host)))
       (\<lambda>(head, h). Some (Inr (s\<lparr>thread_list := head, threads := h\<rparr>)))"

section \<open>The registry as a list\<close>

text \<open>
  \<open>path h p as q\<close>: following \<^verbatim>\<open>next\<close> from \<open>p\<close> visits the live records \<open>as\<close> in
  this order and arrives at \<open>q\<close>.
\<close>

fun path :: "(addr \<rightharpoonup> thread) \<Rightarrow> thread_ptr \<Rightarrow> addr list \<Rightarrow> thread_ptr \<Rightarrow> bool" where
  "path h p [] q = (p = q)"
| "path h p (a # as) q =
     (p = Some a \<and> (case h a of None \<Rightarrow> False | Some r \<Rightarrow> path h (nxt r) as q))"

text \<open>
  The list \<open>xs\<close> is the registry in list order: it is empty and so is \<^verbatim>\<open>thread_list\<close>,
  or \<^verbatim>\<open>thread_list\<close> is its first element and \<^verbatim>\<open>next\<close> leads through \<open>xs\<close> and
  back to the head. In \<open>circular_chain\<close> no record occurs twice; in \<open>registry\<close> the
  chain moreover holds every live record.
\<close>

definition circular :: "(addr \<rightharpoonup> thread) \<Rightarrow> thread_ptr \<Rightarrow> addr list \<Rightarrow> bool" where
  "circular h head xs =
     (case xs of [] \<Rightarrow> head = None | a # as \<Rightarrow> head = Some a \<and> path h head xs head)"

definition circular_chain :: "qstate \<Rightarrow> addr list \<Rightarrow> bool" where
  "circular_chain s xs = (distinct xs \<and> circular (threads s) (thread_list s) xs)"

definition registry :: "qstate \<Rightarrow> addr list \<Rightarrow> bool" where
  "registry s xs = (circular_chain s xs \<and> set xs = dom (threads s))"

definition ready :: "(addr \<rightharpoonup> thread) \<Rightarrow> addr \<Rightarrow> bool" where
  "ready h a = (case h a of None \<Rightarrow> False | Some r \<Rightarrow> state r = READY)"

definition running :: "(addr \<rightharpoonup> thread) \<Rightarrow> addr \<Rightarrow> bool" where
  "running h a = (case h a of None \<Rightarrow> False | Some r \<Rightarrow> state r = RUNNING)"

text \<open>
  Ownership of the stack buffers: the buffer of a registered record is live, and no two
  records share one. Without it the \<^verbatim>\<open>free(thread->stack)\<close> of a join is undefined.
\<close>

definition owned_block :: "(addr \<rightharpoonup> thread) \<Rightarrow> addr \<Rightarrow> block_ptr" where
  "owned_block h a = (case h a of None \<Rightarrow> None | Some r \<Rightarrow> stack r)"

definition stacks_owned :: "qstate \<Rightarrow> addr list \<Rightarrow> bool" where
  "stacks_owned s xs =
     (\<forall>a\<in>set xs. case owned_block (threads s) a of
        None \<Rightarrow> True
      | Some b \<Rightarrow> stacks s b \<noteq> None \<and>
          (\<forall>a'\<in>set xs. owned_block (threads s) a' = Some b \<longrightarrow> a' = a))"

definition wf_state :: "qstate \<Rightarrow> addr list \<Rightarrow> bool" where
  "wf_state s xs = (registry s xs \<and> stacks_owned s xs)"

text \<open>
  Two heaps are \<open>relinked\<close> when they hold the same records up to the \<^verbatim>\<open>next\<close> fields:
  what insertion and removal do to the records they do not add or free.
\<close>

definition payload :: "thread \<Rightarrow> thread" where
  "payload r = r\<lparr>nxt := None\<rparr>"

definition relinked :: "(addr \<rightharpoonup> thread) \<Rightarrow> (addr \<rightharpoonup> thread) \<Rightarrow> bool" where
  "relinked h h' = (\<forall>x. map_option payload (h' x) = map_option payload (h x))"

text \<open>
  What a result of the waiting loop says about the state the loop was entered in.
\<close>

definition join_wait_post :: "thread_ptr \<Rightarrow> qstate \<Rightarrow> fault + transfer \<times> qstate \<Rightarrow> bool" where
  "join_wait_post p s y =
     (case y of
        Inl e \<Rightarrow> True
      | Inr (tr, s0) \<Rightarrow>
          if tr = Returned
          then s0 = s \<and> (\<exists>r. deref (threads s) p = Some r \<and> state r = FINISHED)
          else qscheduler s = Some (Inr (tr, s0)))"

text \<open>
  The record of a new thread as \<^verbatim>\<open>qthread_create\<close> has filled it in when it reaches
  the insertion.
\<close>

definition created_record ::
  "alloc_env \<Rightarrow> size_t \<Rightarrow> void_ptr \<Rightarrow> void_ptr \<Rightarrow> nat \<Rightarrow> thread" where
  "created_record env sz start_routine args b =
     (raw_thread env)\<lparr>stack := Some b, state := READY,
        ctx := \<lparr>ss_sp = Some b, ss_size = sz, uc_link = None,
                entry = Some (start_routine, args)\<rparr>\<rparr>"

text \<open>
  Reading the replies of a run: the transfer of control a reply reports, and the counts
  of threads created and of joins completed.
\<close>

fun transfer_of :: "reply \<Rightarrow> transfer" where
  "transfer_of (Scheduled tr) = tr"
| "transfer_of (Exited tr) = tr"
| "transfer_of (JoinReply (Waiting tr)) = tr"
| "transfer_of r = Returned"

fun created :: "reply \<Rightarrow> nat" where
  "created (Created rc out) = (if rc = 0 then 1 else 0)"
| "created r = 0"

fun joined :: "reply \<Rightarrow> nat" where
  "joined (JoinReply (Joined rc out)) = 1"
| "joined r = 0"

text \<open>
  The handles a run has created and the handles whose join it has completed, read off
  its calls and their replies.
\<close>

fun made :: "call \<Rightarrow> reply \<Rightarrow> addr list" where
  "made (Create env new_thread start_routine args) (Created rc out) =
     (if rc = 0 then (case malloc_thread env of None \<Rightarrow> [] | Some n \<Rightarrow> [Heap n]) else [])"
| "made c r = []"

fun gone :: "call \<Rightarrow> reply \<Rightarrow> addr list" where
  "gone (Join thread retval_req) (JoinReply (Joined rc out)) =
     (case thread of None \<Rightarrow> [] | Some a \<Rightarrow> [a])"
| "gone c r = []"

fun handles_made :: "call list \<Rightarrow> reply list \<Rightarrow> addr list" where
  "handles_made (c # cs) (r # rs) = made c r @ handles_made cs rs"
| "handles_made cs rs = []"

fun handles_gone :: "call list \<Rightarrow> reply list \<Rightarrow> addr list" where
  "handles_gone (c # cs) (r # rs) = gone c r @ handles_gone cs rs"
| "handles_gone cs rs = []"

definition no_running :: "qstate \<Rightarrow> bool" where
  "no_running s = (\<forall>a. \<not> running (threads s) a)"

text \<open>
  A FINISHED record with result \<open>v\<close> stays so under every call but a join of that very
  record, and an exit made while it is still current.
\<close>

definition holds_result :: "qstate \<Rightarrow> addr \<Rightarrow> void_ptr \<Rightarrow> bool" where
  "holds_result s a v = (case threads s a of None \<Rightarrow> False
     | Some r \<Rightarrow> state r = FINISHED \<and> retval r = v)"

fun is_exit :: "call \<Rightarrow> bool" where
  "is_exit (Exit v) = True"
| "is_exit c = False"

fun joins :: "addr \<Rightarrow> call \<Rightarrow> bool" where
  "joins a (Join p rq) = (p = Some a)"
| "joins a c = False"

text \<open>
  \<open>no_exit_by a cs s\<close>: in the run of \<open>cs\<close> from \<open>s\<close>, no call of \<^verbatim>\<open>qthread_exit\<close> is made
  while \<open>a\<close> is the current thread, that is, by \<open>a\<close>.
\<close>

fun no_exit_by :: "addr \<Rightarrow> call list \<Rightarrow> qstate \<Rightarrow> bool" where
  "no_exit_by a [] s = True"
| "no_exit_by a (c # cs) s =
     ((is_exit c \<longrightarrow> current s \<noteq> Some a) \<and>
      (case api c s of Some (Inr (r, s1)) \<Rightarrow> no_exit_by a cs s1 | _ \<Rightarrow> True))"

section \<open>States and environments to run the operations on\<close>

definition blank :: "thread_state \<Rightarrow> thread_ptr \<Rightarrow> thread" where
  "blank st n = \<lparr>ctx = \<lparr>ss_sp = None, ss_size = 0, uc_link = None, entry = None\<rparr>,
     stack = None, state = st, nxt = n, retval = 0\<rparr>"

text \<open>
  \<open>successful k\<close>: both allocations succeed, with thread block and stack block number
  \<open>k\<close>, and so does \<^verbatim>\<open>getcontext\<close>; the fresh block holds a record that says RUNNING.
\<close>

definition successful :: "nat \<Rightarrow> alloc_env" where
  "successful k = \<lparr>malloc_thread = Some k, raw_thread = blank RUNNING None,
     malloc_stack = Some k, getcontext_rc = 0\<rparr>"

text \<open>
  \<open>trio c\<close>: three records in the order 0, 1, 2, the first FINISHED, the others READY,
  with \<^verbatim>\<open>current\<close> as given. \<open>solo st c\<close>: one record in state \<open>st\<close>.
\<close>

definition trio :: "thread_ptr \<Rightarrow> qstate" where
  "trio c = \<lparr>stack_size = DEFAULT_STACK_SIZE, thread_list = Some (Heap 0), current = c,
     threads = [Heap 0 \<mapsto> blank FINISHED (Some (Heap 1)),
                Heap 1 \<mapsto> blank READY (Some (Heap 2)),
                Heap 2 \<mapsto> blank READY (Some (Heap 0))],
     stacks = Map.empty\<rparr>"

definition solo :: "thread_state \<Rightarrow> thread_ptr \<Rightarrow> qstate" where
  "solo st c = \<lparr>stack_size = DEFAULT_STACK_SIZE, thread_list = Some (Heap 0), current = c,
     threads = [Heap 0 \<mapsto> blank st (Some (Heap 0))], stacks = Map.empty\<rparr>"

text \<open>
  \<open>hosted c\<close>: the host's record, READY, and one worker, FINISHED, with \<^verbatim>\<open>current\<close> as
  given.
\<close>

definition hosted :: "thread_ptr \<Rightarrow> qstate" where
  "hosted c = \<lparr>stack_size = DEFAULT_STACK_SIZE, thread_list = Some (Host 0), current = c,
     threads = [Host 0 \<mapsto> blank READY (Some (Heap 1)),
                Heap 1 \<mapsto> blank FINISHED (Some (Host 0))],
     stacks = Map.empty\<rparr>"

text \<open>
  \<open>adopted\<close>: the state the example program has set up by hand when it reaches its first
  \<^verbatim>\<open>qthread_create\<close> (lines 266 to 274, in \<^verbatim>\<open>main\<close>): its own record
  \<^verbatim>\<open>main_thread\<close>, READY, with \<^verbatim>\<open>stack = NULL\<close> and \<^verbatim>\<open>next\<close> pointing to itself, is
  the head of the list; the scheduler has not run yet.
\<close>

definition adopted :: qstate where
  "adopted = init_state\<lparr>thread_list := Some (Host 0),
     threads := [Host 0 \<mapsto> blank READY (Some (Host 0))]\<rparr>"

fun is_set_stacksize :: "call \<Rightarrow> bool" where
  "is_set_stacksize (SetStacksize sz) = True"
| "is_set_stacksize c = False"

section \<open>Paths and the four loops\<close>

lemma path_append:
  "path h p (as @ bs) q = (\<exists>m. path h p as m \<and> path h m bs q)"
  by (induction as arbitrary: p) (auto split: option.splits)

lemma path_live: "path h p as q \<Longrightarrow> a \<in> set as \<Longrightarrow> h a \<noteq> None"
  by (induction as arbitrary: p) (auto split: option.splits)

lemma path_agree:
  "(\<And>a. a \<in> set as \<Longrightarrow> map_option nxt (h' a) = map_option nxt (h a)) \<Longrightarrow>
   path h' p as q = path h p as q"
proof (induction as arbitrary: p)
  case Nil
  show ?case by simp
next
  case (Cons a as)
  have eq: "map_option nxt (h' a) = map_option nxt (h a)"
    using Cons.prems by simp
  have ih: "\<And>p. path h' p as q = path h p as q"
    using Cons.IH Cons.prems by simp
  show ?case
  proof (cases "h a")
    case None
    with eq show ?thesis by simp
  next
    case (Some r)
    with eq obtain r' where "h' a = Some r'" "nxt r' = nxt r" by auto
    with Some ih show ?thesis by simp
  qed
qed

lemma path_upd_other:
  "a \<notin> set as \<Longrightarrow> path (h(a := v)) p as q = path h p as q"
  by (rule path_agree) auto

lemma scan_from_next_found:
  "path h p (us @ t # vs) q \<Longrightarrow> \<forall>u\<in>set us. \<not> ready h u \<Longrightarrow> ready h t \<Longrightarrow>
   c \<notin> set us \<Longrightarrow> c \<noteq> t \<Longrightarrow>
   scan_from_next h (Some c) p = Some (Inr (Some t))"
proof (induction us arbitrary: p)
  case Nil
  then show ?case
    by (subst scan_from_next.simps) (auto simp: deref_def ready_def split: option.splits)
next
  case (Cons u us)
  from Cons.prems obtain r where r: "p = Some u" "h u = Some r" "path h (nxt r) (us @ t # vs) q"
    by (auto split: option.splits)
  have "scan_from_next h (Some c) (nxt r) = Some (Inr (Some t))"
    using Cons.IH [OF r(3)] Cons.prems by simp
  moreover have "state r \<noteq> READY" "u \<noteq> c"
    using Cons.prems r by (auto simp: ready_def)
  ultimately show ?case
    using r by (subst scan_from_next.simps) (simp add: deref_def)
qed

lemma scan_from_next_none:
  "path h p us (Some c) \<Longrightarrow> \<forall>u\<in>set us. \<not> ready h u \<Longrightarrow> c \<notin> set us \<Longrightarrow>
   scan_from_next h (Some c) p = Some (Inr (Some c))"
proof (induction us arbitrary: p)
  case Nil
  then show ?case
    by (subst scan_from_next.simps) simp
next
  case (Cons u us)
  from Cons.prems obtain r where r: "p = Some u" "h u = Some r" "path h (nxt r) us (Some c)"
    by (auto split: option.splits)
  have "scan_from_next h (Some c) (nxt r) = Some (Inr (Some c))"
    using Cons.IH [OF r(3)] Cons.prems by simp
  moreover have "state r \<noteq> READY" "u \<noteq> c"
    using Cons.prems r by (auto simp: ready_def)
  ultimately show ?case
    using r by (subst scan_from_next.simps) (simp add: deref_def)
qed

lemma scan_from_head_found:
  "path h p (us @ t # vs) q \<Longrightarrow> \<forall>u\<in>set us. \<not> ready h u \<Longrightarrow> ready h t \<Longrightarrow>
   \<forall>u\<in>set (tl (us @ [t])). Some u \<noteq> head \<Longrightarrow>
   scan_from_head h head p = Some (Inr (Some t))"
proof (induction us arbitrary: p)
  case Nil
  then show ?case
    by (subst scan_from_head.simps) (auto simp: deref_def ready_def split: option.splits)
next
  case (Cons u us)
  from Cons.prems obtain r where r: "p = Some u" "h u = Some r" "path h (nxt r) (us @ t # vs) q"
    by (auto split: option.splits)
  have "\<forall>u\<in>set (tl (us @ [t])). Some u \<noteq> head"
    using Cons.prems(4) by (cases us) auto
  then have "scan_from_head h head (nxt r) = Some (Inr (Some t))"
    using Cons.IH [OF r(3)] Cons.prems by simp
  moreover have "state r \<noteq> READY"
    using Cons.prems r by (auto simp: ready_def)
  moreover have "nxt r \<noteq> head"
    using r(3) Cons.prems(4) by (cases us) auto
  ultimately show ?case
    using r by (subst scan_from_head.simps) (simp add: deref_def)
qed

lemma scan_from_head_none:
  "path h p us head \<Longrightarrow> us \<noteq> [] \<Longrightarrow> \<forall>u\<in>set us. \<not> ready h u \<Longrightarrow>
   \<forall>u\<in>set (tl us). Some u \<noteq> head \<Longrightarrow>
   scan_from_head h head p = Some (Inr head)"
proof (induction us arbitrary: p)
  case Nil
  then show ?case by simp
next
  case (Cons u us)
  from Cons.prems obtain r where r: "p = Some u" "h u = Some r" "path h (nxt r) us head"
    by (auto split: option.splits)
  have nr: "state r \<noteq> READY"
    using Cons.prems r by (auto simp: ready_def)
  show ?case
  proof (cases us)
    case Nil
    with r nr show ?thesis
      by (subst scan_from_head.simps) (simp add: deref_def)
  next
    case (Cons v vs)
    have "scan_from_head h head (nxt r) = Some (Inr head)"
      using Cons.IH [OF r(3)] Cons.prems Cons by simp
    moreover have "nxt r \<noteq> head"
      using r(3) Cons.prems(4) Cons by auto
    ultimately show ?thesis
      using r nr by (subst scan_from_head.simps) (simp add: deref_def)
  qed
qed

lemma find_tail_last:
  "path h p us head \<Longrightarrow> us \<noteq> [] \<Longrightarrow> \<forall>u\<in>set (tl us). Some u \<noteq> head \<Longrightarrow>
   find_tail h head p = Some (Inr (Some (last us)))"
proof (induction us arbitrary: p)
  case Nil
  then show ?case by simp
next
  case (Cons u us)
  from Cons.prems obtain r where r: "p = Some u" "h u = Some r" "path h (nxt r) us head"
    by (auto split: option.splits)
  show ?case
  proof (cases us)
    case Nil
    with r show ?thesis
      by (subst find_tail.simps) (simp add: deref_def)
  next
    case (Cons v vs)
    have "find_tail h head (nxt r) = Some (Inr (Some (last us)))"
      using Cons.IH [OF r(3)] Cons.prems Cons by simp
    moreover have "nxt r \<noteq> head"
      using r(3) Cons.prems(3) Cons by auto
    ultimately show ?thesis
      using r Cons by (subst find_tail.simps) (simp add: deref_def)
  qed
qed

lemma unlink_scan_stop:
  "path h p us q \<Longrightarrow> \<forall>u\<in>set us. Some u \<noteq> thread \<and> Some u \<noteq> head \<Longrightarrow>
   q = thread \<or> q = head \<Longrightarrow>
   unlink_scan h thread head prev p =
     Some (Inr (if us = [] then prev else Some (last us), q))"
proof (induction us arbitrary: p prev)
  case Nil
  then show ?case
    by (subst unlink_scan.simps) auto
next
  case (Cons u us)
  from Cons.prems obtain r where r: "p = Some u" "h u = Some r" "path h (nxt r) us q"
    by (auto split: option.splits)
  have "unlink_scan h thread head (Some u) (nxt r) =
      Some (Inr (if us = [] then Some u else Some (last us), q))"
    using Cons.IH [OF r(3)] Cons.prems by simp
  then show ?case
    using r Cons.prems(2) by (subst unlink_scan.simps) (auto simp: deref_def)
qed

section \<open>The scheduler on a circular chain\<close>

lemma circular_Cons:
  "circular h head (a # as) = (head = Some a \<and> path h (Some a) (a # as) (Some a))"
  by (auto simp: circular_def)

lemma circular_rotate:
  assumes "circular h head (pre @ c # post)"
  shows "\<exists>cr. h c = Some cr \<and> path h (nxt cr) (post @ pre) (Some c)"
proof (cases pre)
  case Nil
  with assms show ?thesis
    by (auto simp: circular_def split: option.splits)
next
  case (Cons x pre')
  with assms have hd: "head = Some x" and p: "path h head (pre @ c # post) head"
    by (auto simp: circular_def)
  from p obtain m where m: "path h head pre m" "path h m (c # post) head"
    unfolding path_append by blast
  from m(2) obtain cr where cr: "m = Some c" "h c = Some cr" "path h (nxt cr) post head"
    by (auto split: option.splits)
  from cr(3) m(1) cr(1) have "path h (nxt cr) (post @ pre) (Some c)"
    unfolding path_append by blast
  with cr(2) show ?thesis by blast
qed

lemma dispatch_effect:
  assumes "dispatch s t = Inr (tr, s')"
  shows "(tr = Returned \<and> s' = s) \<or>
         (\<exists>a. t = Some a \<and> ready (threads s) a \<and> s' = s\<lparr>current := Some a\<rparr> \<and>
              (tr = SetContext a \<and> current s = None \<or>
               (\<exists>p. tr = SwapContext p a \<and> current s = Some p \<and> p \<noteq> a)))"
  using assms
  by (auto simp: dispatch_def ready_def split: option.splits if_splits)

lemma qscheduler_effect:
  assumes "qscheduler s = Some (Inr (tr, s'))"
  shows "(tr = Returned \<and> s' = s) \<or>
         (\<exists>a. ready (threads s) a \<and> s' = s\<lparr>current := Some a\<rparr> \<and>
              (tr = SetContext a \<and> current s = None \<or>
               (\<exists>p. tr = SwapContext p a \<and> current s = Some p \<and> p \<noteq> a)))"
proof -
  consider (ret) "tr = Returned" "s' = s" | (disp) t where "dispatch s t = Inr (tr, s')"
    using assms
    by (auto simp: qscheduler_def split: option.splits if_splits sum.splits)
  then show ?thesis
  proof cases
    case ret
    then show ?thesis by simp
  next
    case disp
    from dispatch_effect [OF this] show ?thesis by blast
  qed
qed

lemma qscheduler_switch:
  assumes ch: "circular_chain s (pre @ c # post)"
    and cur: "current s = Some c"
    and ord: "post @ pre = us @ t # vs"
    and nr: "\<forall>u\<in>set us. \<not> ready (threads s) u"
    and rt: "ready (threads s) t"
  shows "qscheduler s = Some (Inr (SwapContext c t, s\<lparr>current := Some t\<rparr>))"
proof -
  from ch have d: "distinct (pre @ c # post)"
    and ci: "circular (threads s) (thread_list s) (pre @ c # post)"
    by (simp_all add: circular_chain_def)
  from ci have tl: "thread_list s \<noteq> None"
    by (cases pre) (auto simp: circular_def)
  from circular_rotate [OF ci] obtain cr where
    cr: "threads s c = Some cr" "path (threads s) (nxt cr) (post @ pre) (Some c)"
    by blast
  have "t \<in> set (post @ pre)" "set us \<subseteq> set (post @ pre)"
    unfolding ord by auto
  with d have ne: "c \<notin> set us" "c \<noteq> t" by auto
  have sc: "scan_from_next (threads s) (Some c) (nxt cr) = Some (Inr (Some t))"
    using cr(2) nr rt ne unfolding ord by (rule scan_from_next_found)
  from rt obtain r where r: "threads s t = Some r" "state r = READY"
    by (auto simp: ready_def split: option.splits)
  show ?thesis
    using tl cur cr(1) sc r ne
    by (simp add: qscheduler_def deref_def dispatch_def)
qed

lemma qscheduler_stay:
  assumes ch: "circular_chain s (pre @ c # post)"
    and cur: "current s = Some c"
    and nr: "\<forall>u\<in>set (post @ pre). \<not> ready (threads s) u"
  shows "qscheduler s = Some (Inr (Returned, s))"
proof -
  from ch have d: "distinct (pre @ c # post)"
    and ci: "circular (threads s) (thread_list s) (pre @ c # post)"
    by (simp_all add: circular_chain_def)
  from ci have tl: "thread_list s \<noteq> None"
    by (cases pre) (auto simp: circular_def)
  from circular_rotate [OF ci] obtain cr where
    cr: "threads s c = Some cr" "path (threads s) (nxt cr) (post @ pre) (Some c)"
    by blast
  from d have ne: "c \<notin> set (post @ pre)" by auto
  have sc: "scan_from_next (threads s) (Some c) (nxt cr) = Some (Inr (Some c))"
    using cr(2) nr ne by (rule scan_from_next_none)
  show ?thesis
    using tl cur cr(1) sc
    by (simp add: qscheduler_def deref_def dispatch_def)
qed

lemma qscheduler_bootstrap:
  assumes ch: "circular_chain s (us @ t # vs)"
    and cur: "current s = None"
    and nr: "\<forall>u\<in>set us. \<not> ready (threads s) u"
    and rt: "ready (threads s) t"
  shows "qscheduler s = Some (Inr (SetContext t, s\<lparr>current := Some t\<rparr>))"
proof -
  from ch have d: "distinct (us @ t # vs)"
    and ci: "circular (threads s) (thread_list s) (us @ t # vs)"
    by (simp_all add: circular_chain_def)
  from ci have tl: "thread_list s = Some (hd (us @ t # vs))"
    and p: "path (threads s) (thread_list s) (us @ t # vs) (thread_list s)"
    by (cases us; simp add: circular_def)+
  have far: "\<forall>u\<in>set (tl (us @ [t])). Some u \<noteq> thread_list s"
    using d tl by (cases us) auto
  have sc: "scan_from_head (threads s) (thread_list s) (thread_list s) = Some (Inr (Some t))"
    using p nr rt far by (rule scan_from_head_found)
  from rt obtain r where r: "threads s t = Some r" "state r = READY"
    by (auto simp: ready_def split: option.splits)
  show ?thesis
    using tl cur sc r by (simp add: qscheduler_def dispatch_def)
qed

lemma qscheduler_bootstrap_none:
  assumes ch: "circular_chain s xs"
    and cur: "current s = None"
    and nr: "\<forall>u\<in>set xs. \<not> ready (threads s) u"
  shows "qscheduler s = Some (Inr (Returned, s))"
proof (cases xs)
  case Nil
  with ch show ?thesis
    by (simp add: circular_chain_def circular_def qscheduler_def)
next
  case (Cons x xs')
  from ch Cons have d: "distinct (x # xs')"
    and ci: "circular (threads s) (thread_list s) (x # xs')"
    by (simp_all add: circular_chain_def)
  from ci have tl: "thread_list s = Some x"
    by (simp add: circular_def)
  from ci have p: "path (threads s) (thread_list s) (x # xs') (thread_list s)"
    unfolding circular_Cons by metis
  have far: "\<forall>u\<in>set (tl (x # xs')). Some u \<noteq> thread_list s"
    using d tl by auto
  have sc: "scan_from_head (threads s) (thread_list s) (thread_list s) = Some (Inr (thread_list s))"
    using p _ _ far by (rule scan_from_head_none) (use nr Cons in auto)
  from p tl obtain r where r: "threads s x = Some r"
    by (auto split: option.splits)
  moreover have "state r \<noteq> READY"
    using nr Cons r by (auto simp: ready_def)
  ultimately show ?thesis
    using tl cur sc by (simp add: qscheduler_def dispatch_def)
qed

section \<open>Insertion and removal\<close>

lemma payload_fields:
  "payload r' = payload r \<Longrightarrow>
   ctx r' = ctx r \<and> stack r' = stack r \<and> state r' = state r \<and> retval r' = retval r"
  by (cases r, cases r') (simp add: payload_def)

lemma relinked_refl: "relinked h h"
  by (simp add: relinked_def)

lemma relinked_trans: "relinked h h1 \<Longrightarrow> relinked h1 h2 \<Longrightarrow> relinked h h2"
  by (simp add: relinked_def)

lemma relinked_upd:
  "h a = Some r \<Longrightarrow> relinked h (h(a \<mapsto> r\<lparr>nxt := n\<rparr>))"
  by (simp add: relinked_def payload_def)

lemma relinked_None: "relinked h h' \<Longrightarrow> (h' a = None) = (h a = None)"
  unfolding relinked_def by (metis map_option_is_None)

lemma relinked_dom: "relinked h h' \<Longrightarrow> dom h' = dom h"
  by (auto simp: dom_def relinked_None)

lemma relinked_Some:
  assumes "relinked h h'" and "h a = Some r"
  shows "\<exists>r'. h' a = Some r' \<and> ctx r' = ctx r \<and> stack r' = stack r \<and>
           state r' = state r \<and> retval r' = retval r"
proof -
  from assms have "map_option payload (h' a) = Some (payload r)"
    by (simp add: relinked_def)
  then obtain r' where "h' a = Some r'" "payload r' = payload r"
    by auto
  with payload_fields show ?thesis by blast
qed

lemma relinked_ready: "relinked h h' \<Longrightarrow> ready h' a = ready h a"
proof (cases "h a")
  case None
  assume "relinked h h'"
  with None have "h' a = None" by (simp add: relinked_None)
  with None show ?thesis by (simp add: ready_def)
next
  case (Some r)
  assume "relinked h h'"
  from relinked_Some [OF this Some] Some show ?thesis
    by (auto simp: ready_def)
qed

lemma relinked_owned: "relinked h h' \<Longrightarrow> owned_block h' a = owned_block h a"
proof (cases "h a")
  case None
  assume "relinked h h'"
  with None have "h' a = None" by (simp add: relinked_None)
  with None show ?thesis by (simp add: owned_block_def)
next
  case (Some r)
  assume "relinked h h'"
  from relinked_Some [OF this Some] Some show ?thesis
    by (auto simp: owned_block_def)
qed

lemma path_redirect_last:
  "path h p xs q \<Longrightarrow> xs \<noteq> [] \<Longrightarrow> distinct xs \<Longrightarrow> h (last xs) = Some lr \<Longrightarrow>
   path (h(last xs \<mapsto> lr\<lparr>nxt := q'\<rparr>)) p xs q'"
proof (induction xs arbitrary: p)
  case Nil
  then show ?case by simp
next
  case (Cons x xs)
  note IH = Cons.IH and prems = Cons.prems
  from prems(1) obtain r where r: "p = Some x" "h x = Some r" "path h (nxt r) xs q"
    by (auto split: option.splits)
  show ?case
  proof (cases "xs = []")
    case True
    with r prems show ?thesis by simp
  next
    case False
    then have l: "last (x # xs) = last xs" by simp
    have "last xs \<in> set xs" using False by simp
    with prems(3) have lx: "last xs \<noteq> x" by auto
    have dx: "distinct xs" using prems(3) by simp
    have hl: "h (last xs) = Some lr" using prems(4) l by simp
    define h' where "h' = h(last xs \<mapsto> lr\<lparr>nxt := q'\<rparr>)"
    have ih: "path h' (nxt r) xs q'"
      unfolding h'_def using r(3) False dx hl by (rule IH)
    have hx: "h' x = Some r"
      unfolding h'_def using r(2) lx by simp
    have "path h' p (x # xs) q'"
      using r(1) hx ih by simp
    then show ?thesis
      unfolding h'_def l .
  qed
qed

lemma insert_tail_result:
  assumes d: "distinct xs" and ci: "circular h head xs"
    and a: "a \<notin> set xs" and ha: "h a = Some r"
  shows "\<exists>head' h'. insert_tail h head (Some a) = Some (Inr (head', h')) \<and>
           circular h' head' (xs @ [a]) \<and> relinked h h'"
proof (cases xs)
  case Nil
  with ci have "head = None" by (simp add: circular_def)
  then have "insert_tail h head (Some a) = Some (Inr (Some a, h(a \<mapsto> r\<lparr>nxt := Some a\<rparr>)))"
    using ha by (simp add: insert_tail_def store_def)
  moreover have "circular (h(a \<mapsto> r\<lparr>nxt := Some a\<rparr>)) (Some a) ([] @ [a])"
    by (simp add: circular_def)
  moreover have "relinked h (h(a \<mapsto> r\<lparr>nxt := Some a\<rparr>))"
    using ha by (rule relinked_upd)
  ultimately show ?thesis using Nil by auto
next
  case (Cons x xs')
  with ci have hd: "head = Some x" and p: "path h (Some x) xs (Some x)"
    by (simp_all add: circular_Cons)
  have ne: "xs \<noteq> []" using Cons by simp
  have far: "\<forall>u\<in>set (tl xs). Some u \<noteq> head"
    using d Cons hd by auto
  have ft: "find_tail h head head = Some (Inr (Some (last xs)))"
    using p ne far unfolding hd by (rule find_tail_last)
  have "last xs \<in> set xs" using ne by simp
  with path_live [OF p] obtain lr where lr: "h (last xs) = Some lr" by auto
  have la: "last xs \<noteq> a" using a \<open>last xs \<in> set xs\<close> by auto
  define h1 where "h1 = h(last xs \<mapsto> lr\<lparr>nxt := Some a\<rparr>)"
  define h2 where "h2 = h1(a \<mapsto> r\<lparr>nxt := Some x\<rparr>)"
  have h1a: "h1 a = Some r" using ha la by (simp add: h1_def)
  have res: "insert_tail h head (Some a) = Some (Inr (head, h2))"
    using hd ft lr h1a
    by (simp add: insert_tail_def andthen_def store_def h1_def [symmetric] h2_def [symmetric])
  have "path h1 (Some x) xs (Some a)"
    unfolding h1_def using p ne d lr by (rule path_redirect_last)
  then have "path h2 (Some x) xs (Some a)"
    unfolding h2_def using a by (simp add: path_upd_other)
  moreover have "path h2 (Some a) [a] (Some x)"
    by (simp add: h2_def)
  ultimately have "path h2 (Some x) (xs @ [a]) (Some x)"
    unfolding path_append by blast
  then have c2: "circular h2 head (xs @ [a])"
    using Cons hd by (simp add: circular_def)
  have "relinked h h1" unfolding h1_def using lr by (rule relinked_upd)
  moreover have "relinked h1 h2" unfolding h2_def using h1a by (rule relinked_upd)
  ultimately have "relinked h h2" by (rule relinked_trans)
  with res c2 hd show ?thesis by auto
qed

lemma circular_upd_other:
  "a \<notin> set xs \<Longrightarrow> circular (h(a := v)) head xs = circular h head xs"
  by (cases xs) (simp_all add: circular_def path_upd_other del: path.simps)

lemma qthread_create_fail:
  assumes fresh: "malloc_fresh env s"
    and fail: "malloc_thread env = None \<or> malloc_stack env = None \<or> getcontext_rc env = - 1"
  shows "qthread_create env nt sr ar s = Some (Inr ((- 1, None), s))"
proof (cases "malloc_thread env")
  case None
  then show ?thesis by (simp add: qthread_create_def)
next
  case (Some n)
  with fresh have t: "threads s (Heap n) = None"
    by (simp add: malloc_fresh_def)
  then have h: "\<And>r. ((threads s)(Heap n \<mapsto> r))(Heap n := None) = threads s"
    by (simp add: fun_eq_iff)
  show ?thesis
  proof (cases "malloc_stack env")
    case None
    with Some h show ?thesis by (simp add: qthread_create_def Let_def)
  next
    case b: (Some b)
    with fresh have "stacks s b = None"
      by (simp add: malloc_fresh_def)
    then have st: "\<And>z. ((stacks s)(b \<mapsto> z))(b := None) = stacks s"
      by (simp add: fun_eq_iff)
    from fail Some b have "getcontext_rc env = - 1" by simp
    with Some b h st show ?thesis by (simp add: qthread_create_def Let_def)
  qed
qed

lemma qthread_create_unfold:
  assumes mt: "malloc_thread env = Some n" and ms: "malloc_stack env = Some b"
    and gc: "getcontext_rc env \<noteq> - 1"
  shows "qthread_create env nt sr ar s =
     andthen (insert_tail ((threads s)(Heap n \<mapsto> created_record env (stack_size s) sr ar b))
                (thread_list s) (Some (Heap n)))
       (\<lambda>(head, h). Some (Inr ((0, if nt then Some (Some (Heap n)) else None),
          s\<lparr>thread_list := head, threads := h, stacks := (stacks s)(b \<mapsto> stack_size s)\<rparr>)))"
  using assms by (simp add: qthread_create_def created_record_def Let_def)

lemma qthread_create_success:
  assumes wf: "wf_state s xs" and fresh: "malloc_fresh env s"
    and mt: "malloc_thread env = Some n" and ms: "malloc_stack env = Some b"
    and gc: "getcontext_rc env \<noteq> - 1"
  shows "\<exists>s'. qthread_create env nt sr ar s =
             Some (Inr ((0, if nt then Some (Some (Heap n)) else None), s')) \<and>
           wf_state s' (xs @ [Heap n]) \<and>
           stack_size s' = stack_size s \<and> current s' = current s \<and>
           stacks s' = (stacks s)(b \<mapsto> stack_size s) \<and>
           relinked ((threads s)(Heap n \<mapsto> created_record env (stack_size s) sr ar b))
             (threads s')"
proof -
  define a where "a = Heap n"
  define r where "r = created_record env (stack_size s) sr ar b"
  define h where "h = (threads s)(a \<mapsto> r)"
  from wf have d: "distinct xs" and ci: "circular (threads s) (thread_list s) xs"
    and dm: "set xs = dom (threads s)" and so: "stacks_owned s xs"
    by (simp_all add: wf_state_def registry_def circular_chain_def)
  from fresh mt ms have ta: "threads s a = None" and sb: "stacks s b = None"
    by (simp_all add: malloc_fresh_def a_def)
  from ta dm have an: "a \<notin> set xs" by auto
  have ci': "circular h (thread_list s) xs"
    unfolding h_def using an ci by (simp add: circular_upd_other)
  have ha: "h a = Some r" by (simp add: h_def)
  from insert_tail_result [OF d ci' an ha] obtain head' h' where
    it: "insert_tail h (thread_list s) (Some a) = Some (Inr (head', h'))"
    and c2: "circular h' head' (xs @ [a])" and rl: "relinked h h'"
    by blast
  define s' where
    "s' = s\<lparr>thread_list := head', threads := h', stacks := (stacks s)(b \<mapsto> stack_size s)\<rparr>"
  have res: "qthread_create env nt sr ar s =
      Some (Inr ((0, if nt then Some (Some (Heap n)) else None), s'))"
    unfolding qthread_create_unfold [OF mt ms gc]
    using it by (simp add: andthen_def a_def h_def r_def s'_def)
  have ob: "\<And>x. owned_block h' x = (if x = a then Some b else owned_block (threads s) x)"
    unfolding relinked_owned [OF rl]
    by (simp add: owned_block_def h_def r_def created_record_def)
  have reg: "registry s' (xs @ [a])"
    unfolding registry_def circular_chain_def
    using d an c2 dm relinked_dom [OF rl]
    by (simp add: s'_def h_def)
  have own: "stacks_owned s' (xs @ [a])"
    unfolding stacks_owned_def
  proof
    fix x
    assume x: "x \<in> set (xs @ [a])"
    show "case owned_block (threads s') x of
            None \<Rightarrow> True
          | Some c \<Rightarrow> stacks s' c \<noteq> None \<and>
              (\<forall>a'\<in>set (xs @ [a]). owned_block (threads s') a' = Some c \<longrightarrow> a' = x)"
    proof (cases "x = a")
      case True
      have "\<forall>y\<in>set xs. owned_block (threads s) y \<noteq> Some b"
      proof
        fix y assume "y \<in> set xs"
        with so sb show "owned_block (threads s) y \<noteq> Some b"
          by (auto simp: stacks_owned_def split: option.splits)
      qed
      with True show ?thesis
        by (auto simp: s'_def ob)
    next
      case False
      with x have xin: "x \<in> set xs" by simp
      show ?thesis
      proof (cases "owned_block (threads s) x")
        case None
        with False show ?thesis by (simp add: s'_def ob)
      next
        case (Some c)
        with so xin have c: "stacks s c \<noteq> None"
          "\<forall>a'\<in>set xs. owned_block (threads s) a' = Some c \<longrightarrow> a' = x"
          by (auto simp: stacks_owned_def split: option.splits)
        from c(1) sb have "c \<noteq> b" by auto
        with c Some False show ?thesis
          by (auto simp: s'_def ob)
      qed
    qed
  qed
  have "wf_state s' (xs @ [a])"
    using reg own by (simp add: wf_state_def)
  moreover have "stack_size s' = stack_size s" "current s' = current s"
    "stacks s' = (stacks s)(b \<mapsto> stack_size s)" "threads s' = h'"
    by (simp_all add: s'_def)
  ultimately show ?thesis
    using res rl unfolding a_def h_def r_def by auto
qed

lemma unregister_relink:
  assumes tl: "thread_list s = Some x" and hx: "threads s x = Some hr"
    and first: "\<not> (Some x = nxt hr \<and> x = a)"
    and scan: "unlink_scan (threads s) (Some a) (Some x) (Some x) (nxt hr) =
                 Some (Inr (Some l, Some a))"
    and ha: "threads s a = Some ar" and hl: "threads s l = Some lr"
  shows "unregister (Some a) s =
     Some (Inr (s\<lparr>threads := (threads s)(l \<mapsto> lr\<lparr>nxt := nxt ar\<rparr>),
                  thread_list := (if x = a then nxt ar else Some x)\<rparr>))"
  using assms
  by (auto simp: unregister_def deref_def Let_def andthen_def store_def)

lemma unregister_member:
  assumes d: "distinct (pre @ a # post)"
    and ci: "circular (threads s) (thread_list s) (pre @ a # post)"
  shows "\<exists>s1. unregister (Some a) s = Some (Inr s1) \<and>
           stack_size s1 = stack_size s \<and> current s1 = current s \<and> stacks s1 = stacks s \<and>
           relinked (threads s) (threads s1) \<and> threads s1 a = threads s a \<and>
           circular ((threads s1)(a := None)) (thread_list s1) (pre @ post)"
proof -
  define h where "h = threads s"
  from circular_rotate [OF ci] obtain ar where
    ar: "h a = Some ar" "path h (nxt ar) (post @ pre) (Some a)"
    unfolding h_def by blast
  show ?thesis
  proof (cases "post @ pre = []")
    case True
    with ci ar have "thread_list s = Some a" "nxt ar = Some a"
      by (simp_all add: circular_def)
    with ar(1) have "unregister (Some a) s = Some (Inr (s\<lparr>thread_list := None\<rparr>))"
      by (simp add: unregister_def deref_def h_def)
    with True show ?thesis
      by (simp add: circular_def relinked_refl)
  next
    case False
    define l where "l = last (post @ pre)"
    have lin: "l \<in> set (post @ pre)"
      unfolding l_def using False by (rule last_in_set)
    with d have la: "l \<noteq> a" by auto
    from path_live [OF ar(2) lin] obtain lr where lr: "h l = Some lr" by auto
    define h1 where "h1 = h(l \<mapsto> lr\<lparr>nxt := nxt ar\<rparr>)"
    have rl: "relinked h h1"
      unfolding h1_def using lr by (rule relinked_upd)
    have h1a: "h1 a = h a"
      using la by (simp add: h1_def)
    have dpp: "distinct (post @ pre)" using d by auto
    have cyc: "path h1 (nxt ar) (post @ pre) (nxt ar)"
      unfolding h1_def l_def using ar(2) False dpp lr [unfolded l_def]
      by (rule path_redirect_last)
    show ?thesis
    proof (cases pre)
      case Nil
      with False obtain y ys where post: "post = y # ys" by (cases post) auto
      from ci Nil have tl: "thread_list s = Some a" by (simp add: circular_def)
      from ar(2) Nil post have ny: "nxt ar = Some y" by simp
      from d post have ya: "y \<noteq> a" by auto
      have nodes: "\<forall>u\<in>set post. Some u \<noteq> Some a \<and> Some u \<noteq> Some a"
        using d by auto
      have pa: "path h (nxt ar) post (Some a)"
        using ar(2) Nil by simp
      have pl: "post \<noteq> []" "l = last post"
        using post Nil by (simp_all add: l_def)
      have scan: "unlink_scan h (Some a) (Some a) (Some a) (nxt ar) =
          Some (Inr (Some l, Some a))"
        using unlink_scan_stop [OF pa nodes, of "Some a"] pl by simp
      have res: "unregister (Some a) s =
          Some (Inr (s\<lparr>threads := h1, thread_list := nxt ar\<rparr>))"
        using unregister_relink [of s a ar a l ar lr] tl ar(1) ny ya scan lr
        by (simp add: h_def h1_def)
      have "path (h1(a := None)) (Some y) post (Some y)"
        using cyc d Nil ny by (simp add: path_upd_other del: path.simps)
      then have "circular (h1(a := None)) (nxt ar) (pre @ post)"
        using Nil post ny by (simp add: circular_def)
      with res rl h1a show ?thesis
        by (auto simp: h_def)
    next
      case (Cons x pre')
      from ci Cons have tl: "thread_list s = Some x"
        and p: "path h (Some x) (pre @ a # post) (Some x)"
        by (simp_all add: circular_Cons h_def)
      from d Cons have xa: "x \<noteq> a" by auto
      from p Cons obtain hr where hr: "h x = Some hr"
        "path h (nxt hr) (pre' @ a # post) (Some x)"
        by (auto split: option.splits)
      from hr(2) obtain m where m: "path h (nxt hr) pre' m" "path h m (a # post) (Some x)"
        unfolding path_append by blast
      then have ma: "m = Some a" by simp
      with m ar(1) have px: "path h (nxt ar) post (Some x)" by simp
      have lp: "l = last pre" unfolding l_def using Cons by simp
      have nodes: "\<forall>u\<in>set pre'. Some u \<noteq> Some a \<and> Some u \<noteq> Some x"
        using d Cons by auto
      have pa: "path h (nxt hr) pre' (Some a)"
        using m(1) ma by simp
      have pl: "(if pre' = [] then Some x else Some (last pre')) = Some l"
        using Cons by (simp add: lp)
      have scan: "unlink_scan h (Some a) (Some x) (Some x) (nxt hr) =
          Some (Inr (Some l, Some a))"
        using unlink_scan_stop [OF pa nodes, of "Some x"] pl by simp
      have res: "unregister (Some a) s =
          Some (Inr (s\<lparr>threads := h1, thread_list := Some x\<rparr>))"
        using unregister_relink [of s x hr a l ar lr] tl hr(1) xa scan ar(1) lr
        by (simp add: h_def h1_def)
      have "last pre \<in> set pre" using Cons by simp
      with d have lnp: "l \<notin> set post" unfolding lp by auto
      from p obtain m' where m': "path h (Some x) pre m'" "path h m' (a # post) (Some x)"
        unfolding path_append by blast
      then have "path h (Some x) pre (Some a)" by simp
      then have "path h1 (Some x) pre (nxt ar)"
        unfolding h1_def lp using _ _ lr [unfolded lp]
        by (rule path_redirect_last) (use d Cons in auto)
      moreover have "path h1 (nxt ar) post (Some x)"
        unfolding h1_def using px lnp by (simp add: path_upd_other)
      ultimately have "path h1 (Some x) (pre @ post) (Some x)"
        unfolding path_append by blast
      then have "path (h1(a := None)) (Some x) (pre @ post) (Some x)"
        using d by (simp add: path_upd_other del: path.simps)
      then have "circular (h1(a := None)) (Some x) (pre @ post)"
        using Cons by (simp add: circular_def)
      with res rl h1a show ?thesis
        by (auto simp: h_def)
    qed
  qed
qed

lemma relinked_upd_both: "relinked h h' \<Longrightarrow> relinked (h(a := v)) (h'(a := v))"
  by (simp add: relinked_def)

lemma owned_block_upd_other: "x \<noteq> a \<Longrightarrow> owned_block (h(a := v)) x = owned_block h x"
  by (simp add: owned_block_def)

lemma join_wait_finished:
  "deref (threads s) p = Some r \<Longrightarrow> state r = FINISHED \<Longrightarrow>
   join_wait p s = Some (Inr (Returned, s))"
  by (subst join_wait.simps) simp

lemma join_wait_result:
  assumes "join_wait p s = Some y"
  shows "join_wait_post p s y"
proof (rule join_wait.raw_induct [where P = join_wait_post, OF _ assms])
  fix jw p s y
  assume IH: "\<And>p s y. jw p s = Some y \<Longrightarrow> join_wait_post p s y"
    and body: "(case deref (threads s) p of
        None \<Rightarrow> Some (Inl BadPointer)
      | Some r \<Rightarrow>
          if state r \<noteq> FINISHED then
            (case qscheduler s of
               None \<Rightarrow> None
             | Some (Inl e) \<Rightarrow> Some (Inl e)
             | Some (Inr (tr, s1)) \<Rightarrow>
                 if tr = Returned then jw p s1 else Some (Inr (tr, s1)))
          else Some (Inr (Returned, s))) = Some y"
  show "join_wait_post p s y"
  proof (cases "deref (threads s) p")
    case None
    with body show ?thesis by (auto simp: join_wait_post_def)
  next
    case (Some r)
    show ?thesis
    proof (cases "state r = FINISHED")
      case True
      with body Some show ?thesis by (auto simp: join_wait_post_def)
    next
      case False
      show ?thesis
      proof (cases "qscheduler s")
        case None
        with body Some False show ?thesis by simp
      next
        case sc: (Some z)
        show ?thesis
        proof (cases z)
          case (Inl e)
          with body Some False sc show ?thesis by (auto simp: join_wait_post_def)
        next
          case (Inr q)
          obtain tr s1 where q: "q = (tr, s1)" by (cases q)
          show ?thesis
          proof (cases "tr = Returned")
            case True
            with sc Inr q qscheduler_effect [of s Returned s1] have "s1 = s" by auto
            moreover from body Some False sc Inr q True have "jw p s1 = Some y" by simp
            ultimately show ?thesis using IH by simp
          next
            case ne: False
            with body Some False sc Inr q show ?thesis by (auto simp: join_wait_post_def)
          qed
        qed
      qed
    qed
  qed
qed

lemma join_wait_effect:
  assumes "join_wait p s = Some (Inr (tr, s0))"
  shows "(tr \<noteq> Returned \<and> qscheduler s = Some (Inr (tr, s0))) \<or>
         (tr = Returned \<and> s0 = s \<and> (\<exists>r. deref (threads s) p = Some r \<and> state r = FINISHED))"
  using join_wait_result [OF assms] by (auto simp: join_wait_post_def split: if_splits)

lemma running_stack_relinked:
  assumes "relinked (threads s) (threads s1)" and "current s1 = current s"
  shows "running_stack s1 = running_stack s"
proof (cases "current s")
  case None
  with assms(2) show ?thesis by (simp add: running_stack_def deref_def)
next
  case (Some c)
  from relinked_owned [OF assms(1), of c] assms(2) Some show ?thesis
    by (simp add: running_stack_def deref_def owned_block_def)
qed

text \<open>
  In a well-formed state a thread other than the caller does not own the stack the caller
  runs on.
\<close>

lemma not_on_own_stack:
  assumes wf: "wf_state s xs" and r: "threads s a = Some r" and other: "current s \<noteq> Some a"
  shows "stack r = None \<or> stack r \<noteq> running_stack s"
proof (cases "stack r")
  case None
  then show ?thesis by simp
next
  case (Some b)
  from wf have dm: "set xs = dom (threads s)" and so: "stacks_owned s xs"
    by (simp_all add: wf_state_def registry_def)
  from r dm have ain: "a \<in> set xs" by auto
  have oa: "owned_block (threads s) a = Some b"
    using r Some by (simp add: owned_block_def)
  have "running_stack s \<noteq> Some b"
  proof
    assume rs: "running_stack s = Some b"
    then obtain c cr where c: "current s = Some c" "threads s c = Some cr" "stack cr = Some b"
      by (auto simp: running_stack_def deref_def split: option.splits)
    from c(2) dm have "c \<in> set xs" by auto
    moreover have "owned_block (threads s) c = Some b"
      using c by (simp add: owned_block_def)
    ultimately have "c = a"
      using so ain oa by (auto simp: stacks_owned_def split: option.splits)
    with c(1) other show False by simp
  qed
  with Some show ?thesis by simp
qed

lemma qthread_join_finished:
  assumes wf: "wf_state s (pre @ Heap n # post)"
    and r: "threads s (Heap n) = Some r" and fin: "state r = FINISHED"
    and free: "stack r = None \<or> stack r \<noteq> running_stack s"
  shows "\<exists>s'. qthread_join (Some (Heap n)) rq s =
             Some (Inr (Joined 0 (if rq then Some (retval r) else None), s')) \<and>
           wf_state s' (pre @ post) \<and>
           stack_size s' = stack_size s \<and> current s' = current s \<and>
           relinked ((threads s)(Heap n := None)) (threads s') \<and>
           stacks s' = (case stack r of None \<Rightarrow> stacks s | Some b \<Rightarrow> (stacks s)(b := None))"
proof -
  define a where "a = Heap n"
  define xs where "xs = pre @ a # post"
  from wf have d: "distinct xs" and ci: "circular (threads s) (thread_list s) xs"
    and dm: "set xs = dom (threads s)" and so: "stacks_owned s xs"
    by (simp_all add: wf_state_def registry_def circular_chain_def xs_def a_def)
  have ra: "threads s a = Some r" using r by (simp add: a_def)
  from unregister_member [OF d [unfolded xs_def] ci [unfolded xs_def]] obtain s1 where
    un: "unregister (Some a) s = Some (Inr s1)"
    and fr: "stack_size s1 = stack_size s" "current s1 = current s" "stacks s1 = stacks s"
    and rl: "relinked (threads s) (threads s1)"
    and s1a: "threads s1 a = threads s a"
    and c1: "circular ((threads s1)(a := None)) (thread_list s1) (pre @ post)"
    by blast
  define st where
    "st = (case stack r of None \<Rightarrow> stacks s | Some b \<Rightarrow> (stacks s)(b := None))"
  have ain: "a \<in> set xs" by (simp add: xs_def)
  have oa: "owned_block (threads s) a = stack r"
    using ra by (simp add: owned_block_def)
  have fb: "free_block (stacks s1) (stack r) = Inr st"
  proof (cases "stack r")
    case None
    then show ?thesis by (simp add: free_block_def st_def fr)
  next
    case (Some b)
    with so ain oa have "stacks s b \<noteq> None"
      by (auto simp: stacks_owned_def split: option.splits)
    with Some show ?thesis by (simp add: free_block_def st_def fr)
  qed
  have ft: "free_thread (threads s1) (Some a) = Inr ((threads s1)(a := None))"
    using s1a ra by (simp add: free_thread_def a_def)
  define s' where "s' = s1\<lparr>threads := (threads s1)(a := None), stacks := st\<rparr>"
  have jw: "join_wait (Some a) s = Some (Inr (Returned, s))"
    using ra fin by (intro join_wait_finished) (simp_all add: deref_def)
  have rs: "running_stack s1 = running_stack s"
    using rl fr(2) by (rule running_stack_relinked)
  have res: "qthread_join (Some a) rq s =
      Some (Inr (Joined 0 (if rq then Some (retval r) else None), s'))"
    using ra jw un s1a fb ft free rs
    by (auto simp: qthread_join_def deref_def andthen_def s'_def)
  have dpp: "distinct (pre @ post)" and anp: "a \<notin> set (pre @ post)"
    and sub: "set (pre @ post) = set xs - {a}"
    using d by (auto simp: xs_def)
  have dom': "dom (threads s') = set (pre @ post)"
    using relinked_dom [OF rl] dm sub by (simp add: s'_def)
  have reg: "registry s' (pre @ post)"
    unfolding registry_def circular_chain_def
    using dpp c1 dom' by (simp add: s'_def)
  have ob: "\<And>x. x \<noteq> a \<Longrightarrow> owned_block (threads s') x = owned_block (threads s) x"
    by (simp add: s'_def owned_block_upd_other relinked_owned [OF rl])
  have own: "stacks_owned s' (pre @ post)"
    unfolding stacks_owned_def
  proof
    fix x
    assume x: "x \<in> set (pre @ post)"
    with sub have xin: "x \<in> set xs" and xa: "x \<noteq> a" by auto
    show "case owned_block (threads s') x of
            None \<Rightarrow> True
          | Some c \<Rightarrow> stacks s' c \<noteq> None \<and>
              (\<forall>a'\<in>set (pre @ post). owned_block (threads s') a' = Some c \<longrightarrow> a' = x)"
    proof (cases "owned_block (threads s) x")
      case None
      with xa show ?thesis by (simp add: ob)
    next
      case (Some c)
      with so xin have c: "stacks s c \<noteq> None"
        "\<forall>a'\<in>set xs. owned_block (threads s) a' = Some c \<longrightarrow> a' = x"
        by (auto simp: stacks_owned_def split: option.splits)
      from c(2) ain xa oa have "stack r \<noteq> Some c" by auto
      with c(1) have "st c \<noteq> None"
        by (auto simp: st_def split: option.splits)
      moreover have "\<forall>a'\<in>set (pre @ post). owned_block (threads s') a' = Some c \<longrightarrow> a' = x"
      proof (intro ballI impI)
        fix a'
        assume a': "a' \<in> set (pre @ post)" and o: "owned_block (threads s') a' = Some c"
        from a' sub have "a' \<in> set xs" "a' \<noteq> a" by auto
        with o c(2) show "a' = x" by (simp add: ob)
      qed
      ultimately show ?thesis
        using Some xa by (simp add: ob) (simp add: s'_def)
    qed
  qed
  have "wf_state s' (pre @ post)"
    using reg own by (simp add: wf_state_def)
  moreover have "stack_size s' = stack_size s" "current s' = current s" "stacks s' = st"
    by (simp_all add: s'_def fr)
  moreover have "relinked ((threads s)(a := None)) (threads s')"
    using relinked_upd_both [OF rl] by (simp add: s'_def)
  ultimately show ?thesis
    using res unfolding a_def st_def by auto
qed

section \<open>What each operation changes\<close>

lemma store_relinked: "store h p (\<lambda>r. r\<lparr>nxt := n\<rparr>) = Inr h' \<Longrightarrow> relinked h h'"
  by (auto simp: store_def relinked_upd split: option.splits)

lemma insert_tail_relinked:
  assumes "insert_tail h head t = Some (Inr (head', h'))"
  shows "relinked h h'"
proof (cases "head = None")
  case True
  with assms show ?thesis
    by (auto simp: insert_tail_def split: sum.splits dest: store_relinked)
next
  case False
  with assms obtain temp h1 where
    "store h temp (\<lambda>r. r\<lparr>nxt := t\<rparr>) = Inr h1" "store h1 t (\<lambda>r. r\<lparr>nxt := head\<rparr>) = Inr h'"
    by (auto simp: insert_tail_def andthen_def split: option.splits sum.splits)
  then have "relinked h h1" "relinked h1 h'"
    by (auto dest: store_relinked)
  then show ?thesis by (rule relinked_trans)
qed

lemma unregister_effect:
  assumes "unregister p s = Some (Inr s1)"
  shows "relinked (threads s) (threads s1) \<and> current s1 = current s \<and>
         stack_size s1 = stack_size s \<and> stacks s1 = stacks s"
  using assms
  by (auto simp: unregister_def andthen_def Let_def relinked_refl
      split: if_splits option.splits sum.splits prod.splits dest: store_relinked)

lemma qthread_exit_effect:
  assumes "qthread_exit v s = Some (Inr (tr, s'))"
  shows "\<exists>c r. current s = Some c \<and> threads s c = Some r \<and>
           qscheduler (s\<lparr>threads := (threads s)(c \<mapsto> r\<lparr>retval := v, state := FINISHED\<rparr>)\<rparr>) =
             Some (Inr (tr, s'))"
  using assms by (auto simp: qthread_exit_def split: option.splits)

lemma qthread_create_effect:
  assumes "qthread_create env nt sr ar s = Some (Inr ((rc, out), s'))"
  shows "current s' = current s \<and> stack_size s' = stack_size s \<and>
         (rc = 0 \<and> (\<exists>n b. malloc_thread env = Some n \<and> malloc_stack env = Some b \<and>
              getcontext_rc env \<noteq> - 1 \<and>
              stacks s' = (stacks s)(b \<mapsto> stack_size s) \<and>
              relinked ((threads s)(Heap n \<mapsto> created_record env (stack_size s) sr ar b))
                (threads s')) \<or>
          rc = - 1 \<and> (malloc_thread env = None \<or> malloc_stack env = None \<or>
              getcontext_rc env = - 1) \<and>
            (threads s' = threads s \<or> (\<exists>a. threads s' = (threads s)(a := None))))"
proof (cases "\<exists>n b. malloc_thread env = Some n \<and> malloc_stack env = Some b \<and>
    getcontext_rc env \<noteq> - 1")
  case True
  then obtain n b where e: "malloc_thread env = Some n" "malloc_stack env = Some b"
    "getcontext_rc env \<noteq> - 1" by blast
  from assms obtain head h where
    it: "insert_tail ((threads s)(Heap n \<mapsto> created_record env (stack_size s) sr ar b))
           (thread_list s) (Some (Heap n)) = Some (Inr (head, h))"
    and s': "s' = s\<lparr>thread_list := head, threads := h,
               stacks := (stacks s)(b \<mapsto> stack_size s)\<rparr>" and rc: "rc = 0"
    unfolding qthread_create_unfold [OF e]
    by (auto simp: andthen_def split: option.splits sum.splits)
  from insert_tail_relinked [OF it] s' rc e show ?thesis by auto
next
  case False
  with assms show ?thesis
    by (auto simp: qthread_create_def Let_def split: option.splits if_splits)
qed

lemma qthread_join_effect:
  assumes "qthread_join p rq s = Some (Inr (j, s'))"
  shows "(\<exists>tr. j = Waiting tr \<and> tr \<noteq> Returned \<and> qscheduler s = Some (Inr (tr, s'))) \<or>
         (\<exists>n r. p = Some (Heap n) \<and> threads s (Heap n) = Some r \<and> state r = FINISHED \<and>
            j = Joined 0 (if rq then Some (retval r) else None) \<and>
            current s' = current s \<and> stack_size s' = stack_size s \<and>
            relinked ((threads s)(Heap n := None)) (threads s') \<and>
            (stack r = None \<or> stack r \<noteq> running_stack s))"
proof -
  from assms obtain tr s0 where jw: "join_wait p s = Some (Inr (tr, s0))"
    by (auto simp: qthread_join_def andthen_def split: option.splits sum.splits)
  from join_wait_effect [OF jw] show ?thesis
  proof (elim disjE conjE exE)
    assume "tr \<noteq> Returned" "qscheduler s = Some (Inr (tr, s0))"
    with assms jw show ?thesis
      by (auto simp: qthread_join_def andthen_def)
  next
    fix r
    assume tr: "tr = Returned" and s0: "s0 = s"
      and r: "deref (threads s) p = Some r" and fin: "state r = FINISHED"
    from assms jw tr s0 r obtain s1 r1 st h where
      un: "unregister p s = Some (Inr s1)"
      and r1: "deref (threads s1) p = Some r1"
      and nu: "stack r1 = None \<or> stack r1 \<noteq> running_stack s1"
      and ft: "free_thread (threads s1) p = Inr h"
      and j: "j = Joined 0 (if rq then Some (retval r) else None)"
      and s': "s' = s1\<lparr>threads := h, stacks := st\<rparr>"
      by (auto simp: qthread_join_def andthen_def split: option.splits sum.splits if_splits)
    from r obtain a where a: "p = Some a" "threads s a = Some r"
      by (auto simp: deref_def split: option.splits)
    from ft a obtain n where n: "a = Heap n" "h = (threads s1)(Heap n := None)"
      by (auto simp: free_thread_def split: addr.splits if_splits)
    from unregister_effect [OF un] have
      rl: "relinked (threads s) (threads s1)" and fr: "current s1 = current s"
        "stack_size s1 = stack_size s"
      by simp_all
    from relinked_Some [OF rl a(2)] r1 a(1) have st1: "stack r1 = stack r"
      by (auto simp: deref_def)
    have "running_stack s1 = running_stack s"
      using rl fr(1) by (rule running_stack_relinked)
    with nu st1 have nu': "stack r = None \<or> stack r \<noteq> running_stack s" by simp
    from relinked_upd_both [OF rl] have "relinked ((threads s)(Heap n := None)) h"
      unfolding n .
    with a n fin j s' fr nu' show ?thesis by simp
  qed
qed

lemma relinked_running: "relinked h h' \<Longrightarrow> running h' a = running h a"
proof (cases "h a")
  case None
  assume "relinked h h'"
  with None have "h' a = None" by (simp add: relinked_None)
  with None show ?thesis by (simp add: running_def)
next
  case (Some r)
  assume "relinked h h'"
  from relinked_Some [OF this Some] Some show ?thesis
    by (auto simp: running_def)
qed

section \<open>Invariants of the calls\<close>

lemma qscheduler_current:
  "qscheduler s = Some (Inr (Returned, s')) \<Longrightarrow> s' = s"
  using qscheduler_effect [of s Returned s'] by auto

lemma api_current:
  assumes "api c s = Some (Inr (rp, s'))" and "transfer_of rp = Returned"
  shows "current s' = current s"
proof (cases c)
  case (SetStacksize sz)
  with assms show ?thesis by (auto simp: api_def qthread_set_stacksize_def)
next
  case Self
  with assms show ?thesis by (auto simp: api_def)
next
  case (Create env nt sr ar)
  with assms obtain rc out where "qthread_create env nt sr ar s = Some (Inr ((rc, out), s'))"
    by (auto simp: api_def andthen_def split: option.splits sum.splits)
  from qthread_create_effect [OF this] show ?thesis by simp
next
  case Schedule
  with assms have "qscheduler s = Some (Inr (Returned, s'))"
    by (auto simp: api_def andthen_def split: option.splits sum.splits)
  then show ?thesis by (auto dest: qscheduler_current)
next
  case (Exit v)
  with assms have "qthread_exit v s = Some (Inr (Returned, s'))"
    by (auto simp: api_def andthen_def split: option.splits sum.splits)
  from qthread_exit_effect [OF this] obtain c r where
    "qscheduler (s\<lparr>threads := (threads s)(c \<mapsto> r\<lparr>retval := v, state := FINISHED\<rparr>)\<rparr>) =
       Some (Inr (Returned, s'))" by blast
  from qscheduler_current [OF this] show ?thesis by simp
next
  case (Join p rq)
  with assms obtain j where j: "qthread_join p rq s = Some (Inr (j, s'))" "rp = JoinReply j"
    by (auto simp: api_def andthen_def split: option.splits sum.splits)
  from qthread_join_effect [OF j(1)] show ?thesis
  proof (elim disjE exE conjE)
    fix tr
    assume "j = Waiting tr" "qscheduler s = Some (Inr (tr, s'))"
    with assms(2) j(2) show ?thesis by (auto dest: qscheduler_current)
  next
    fix n r
    assume "current s' = current s"
    then show ?thesis .
  qed
qed

lemma run_current:
  "run cs s = Some (Inr (rs, s')) \<Longrightarrow> \<forall>r\<in>set rs. transfer_of r = Returned \<Longrightarrow>
   current s' = current s"
proof (induction cs arbitrary: s rs)
  case Nil
  then show ?case by simp
next
  case (Cons c cs)
  from Cons.prems(1) obtain r s1 rs1 where
    st: "api c s = Some (Inr (r, s1))" "run cs s1 = Some (Inr (rs1, s'))" "rs = r # rs1"
    by (auto simp: andthen_def split: option.splits sum.splits)
  with Cons.prems(2) have "transfer_of r = Returned" "\<forall>r\<in>set rs1. transfer_of r = Returned"
    by simp_all
  with st Cons.IH [OF st(2)] api_current [OF st(1)] show ?case by simp
qed

lemma qscheduler_threads:
  "qscheduler s = Some (Inr (tr, s')) \<Longrightarrow>
   threads s' = threads s \<and> stacks s' = stacks s \<and> thread_list s' = thread_list s \<and>
   stack_size s' = stack_size s"
  using qscheduler_effect [of s tr s'] by auto

lemma api_no_running:
  assumes nr: "no_running s" and ap: "api c s = Some (Inr (rp, s'))"
  shows "no_running s'"
proof (cases c)
  case (SetStacksize sz)
  with assms show ?thesis by (auto simp: api_def qthread_set_stacksize_def no_running_def)
next
  case Self
  with assms show ?thesis by (auto simp: api_def)
next
  case (Create env nt sr ar)
  with ap obtain rc out where "qthread_create env nt sr ar s = Some (Inr ((rc, out), s'))"
    by (auto simp: api_def andthen_def split: option.splits sum.splits)
  from qthread_create_effect [OF this] consider
    (ok) n b where "relinked
        ((threads s)(Heap n \<mapsto> created_record env (stack_size s) sr ar b)) (threads s')"
    | (same) "threads s' = threads s"
    | (gone) a where "threads s' = (threads s)(a := None)"
    by blast
  then show ?thesis
  proof cases
    case ok
    from relinked_running [OF this]
    have "\<And>a. running (threads s') a =
        running ((threads s)(Heap n \<mapsto> created_record env (stack_size s) sr ar b)) a" .
    moreover have "\<And>a. running
        ((threads s)(Heap n \<mapsto> created_record env (stack_size s) sr ar b)) a =
        (a \<noteq> Heap n \<and> running (threads s) a)"
      by (simp add: running_def created_record_def)
    ultimately show ?thesis
      using nr by (simp add: no_running_def)
  next
    case same
    with nr show ?thesis by (simp add: no_running_def)
  next
    case gone
    then have "\<And>x. running (threads s') x = (x \<noteq> a \<and> running (threads s) x)"
      by (simp add: running_def)
    with nr show ?thesis by (simp add: no_running_def)
  qed
next
  case Schedule
  with ap obtain tr where "qscheduler s = Some (Inr (tr, s'))"
    by (auto simp: api_def andthen_def split: option.splits sum.splits)
  from qscheduler_threads [OF this] nr show ?thesis by (simp add: no_running_def)
next
  case (Exit v)
  with ap obtain tr where "qthread_exit v s = Some (Inr (tr, s'))"
    by (auto simp: api_def andthen_def split: option.splits sum.splits)
  from qthread_exit_effect [OF this] obtain c r where
    "qscheduler (s\<lparr>threads := (threads s)(c \<mapsto> r\<lparr>retval := v, state := FINISHED\<rparr>)\<rparr>) =
       Some (Inr (tr, s'))" by blast
  from qscheduler_threads [OF this]
  have "threads s' = (threads s)(c \<mapsto> r\<lparr>retval := v, state := FINISHED\<rparr>)" by simp
  then have "\<And>a. running (threads s') a = (a \<noteq> c \<and> running (threads s) a)"
    by (simp add: running_def)
  with nr show ?thesis by (simp add: no_running_def)
next
  case (Join p rq)
  with ap obtain j where j: "qthread_join p rq s = Some (Inr (j, s'))"
    by (auto simp: api_def andthen_def split: option.splits sum.splits)
  from qthread_join_effect [OF j] consider
    (wait) tr where "qscheduler s = Some (Inr (tr, s'))"
    | (fin) n where "relinked ((threads s)(Heap n := None)) (threads s')"
    by blast
  then show ?thesis
  proof cases
    case wait
    from qscheduler_threads [OF wait] nr show ?thesis by (simp add: no_running_def)
  next
    case fin
    from relinked_running [OF fin]
    have "\<And>a. running (threads s') a = running ((threads s)(Heap n := None)) a" .
    moreover have "\<And>a. running ((threads s)(Heap n := None)) a =
        (a \<noteq> Heap n \<and> running (threads s) a)"
      by (simp add: running_def)
    ultimately show ?thesis
      using nr by (simp add: no_running_def)
  qed
qed

lemma run_no_running:
  "no_running s \<Longrightarrow> run cs s = Some (Inr (rs, s')) \<Longrightarrow> no_running s'"
proof (induction cs arbitrary: s rs)
  case Nil
  then show ?case by simp
next
  case (Cons c cs)
  from Cons.prems(2) obtain r s1 rs1 where
    st: "api c s = Some (Inr (r, s1))" "run cs s1 = Some (Inr (rs1, s'))"
    by (auto simp: andthen_def split: option.splits sum.splits)
  from api_no_running [OF Cons.prems(1) st(1)] st(2) show ?case by (rule Cons.IH)
qed

lemma stacks_owned_agree:
  "(\<And>a. owned_block (threads s') a = owned_block (threads s) a) \<Longrightarrow> stacks s' = stacks s \<Longrightarrow>
   stacks_owned s' xs = stacks_owned s xs"
  by (simp add: stacks_owned_def cong: option.case_cong)

lemma wf_state_same:
  "thread_list s' = thread_list s \<Longrightarrow> threads s' = threads s \<Longrightarrow> stacks s' = stacks s \<Longrightarrow>
   wf_state s' xs = wf_state s xs"
  by (simp add: wf_state_def registry_def circular_chain_def stacks_owned_agree [of s' s])

lemma circular_agree:
  assumes "\<And>a. a \<in> set xs \<Longrightarrow> map_option nxt (h' a) = map_option nxt (h a)"
  shows "circular h' head xs = circular h head xs"
proof (cases xs)
  case Nil
  then show ?thesis by (simp add: circular_def)
next
  case (Cons x xs')
  have "path h' head xs head = path h head xs head"
    using assms by (rule path_agree)
  with Cons show ?thesis by (simp add: circular_def del: path.simps)
qed

text \<open>
  The two assignments of \<^verbatim>\<open>qthread_exit\<close> leave the chain and the buffers as they are.
\<close>

lemma exit_update_chain:
  assumes "threads s c = Some r"
  shows "circular_chain (s\<lparr>threads := (threads s)(c \<mapsto> r\<lparr>retval := v, state := FINISHED\<rparr>)\<rparr>) xs
     = circular_chain s xs"
proof -
  have "circular ((threads s)(c \<mapsto> r\<lparr>retval := v, state := FINISHED\<rparr>)) (thread_list s) xs =
      circular (threads s) (thread_list s) xs"
    by (rule circular_agree) (use assms in auto)
  then show ?thesis by (simp add: circular_chain_def)
qed

lemma exit_update_wf:
  assumes "threads s c = Some r"
  shows "wf_state (s\<lparr>threads := (threads s)(c \<mapsto> r\<lparr>retval := v, state := FINISHED\<rparr>)\<rparr>) xs
     = wf_state s xs"
proof -
  have "dom ((threads s)(c \<mapsto> r\<lparr>retval := v, state := FINISHED\<rparr>)) = dom (threads s)"
    using assms by auto
  moreover have "\<And>a. owned_block ((threads s)(c \<mapsto> r\<lparr>retval := v, state := FINISHED\<rparr>)) a =
      owned_block (threads s) a"
    using assms by (simp add: owned_block_def)
  then have "stacks_owned (s\<lparr>threads := (threads s)(c \<mapsto> r\<lparr>retval := v, state := FINISHED\<rparr>)\<rparr>) xs =
      stacks_owned s xs"
    by (intro stacks_owned_agree) simp_all
  ultimately show ?thesis
    using exit_update_chain [OF assms, of v xs]
    by (simp add: wf_state_def registry_def)
qed

lemma api_wf:
  assumes wf: "wf_state s xs" and ok: "call_ok c s" and ap: "api c s = Some (Inr (rp, s'))"
  shows "\<exists>xs'. wf_state s' xs' \<and> length xs' + joined rp = length xs + created rp \<and>
           mset xs' + mset (gone c rp) = mset xs + mset (made c rp)"
proof (cases c)
  case (SetStacksize sz)
  with ap have "s' = s\<lparr>stack_size := sz\<rparr>" "rp = Done"
    by (auto simp: api_def qthread_set_stacksize_def)
  with wf wf_state_same [of "s\<lparr>stack_size := sz\<rparr>" s xs] SetStacksize
  have "wf_state s' xs" "joined rp = created rp" "gone c rp = []" "made c rp = []"
    by simp_all
  then show ?thesis by (intro exI [of _ xs]) simp
next
  case Self
  with ap have "s' = s" "rp = Handle (qthread_self s)" by (auto simp: api_def)
  with wf Self show ?thesis by (intro exI [of _ xs]) simp
next
  case (Create env nt sr ar)
  with ok have fresh: "malloc_fresh env s" by simp
  from ap Create obtain rc out where
    cr: "qthread_create env nt sr ar s = Some (Inr ((rc, out), s'))" and rp: "rp = Created rc out"
    by (auto simp: api_def andthen_def split: option.splits sum.splits)
  show ?thesis
  proof (cases "malloc_thread env = None \<or> malloc_stack env = None \<or> getcontext_rc env = - 1")
    case True
    from qthread_create_fail [OF fresh True, of nt sr ar] cr
    have "rc = - 1" "s' = s" by simp_all
    with wf rp Create show ?thesis by (intro exI [of _ xs]) simp
  next
    case False
    then obtain n b where e: "malloc_thread env = Some n" "malloc_stack env = Some b"
      "getcontext_rc env \<noteq> - 1" by auto
    from qthread_create_success [OF wf fresh e, of nt sr ar] cr
    have "rc = 0" "wf_state s' (xs @ [Heap n])" by auto
    with rp Create e(1) show ?thesis by (intro exI [of _ "xs @ [Heap n]"]) simp
  qed
next
  case Schedule
  with ap obtain tr where sc: "qscheduler s = Some (Inr (tr, s'))" and rp: "rp = Scheduled tr"
    by (auto simp: api_def andthen_def split: option.splits sum.splits)
  from qscheduler_threads [OF sc] wf have "wf_state s' xs"
    by (simp add: wf_state_same [of s' s])
  with rp Schedule show ?thesis by (intro exI [of _ xs]) simp
next
  case (Exit v)
  with ap obtain tr where ex: "qthread_exit v s = Some (Inr (tr, s'))" and rp: "rp = Exited tr"
    by (auto simp: api_def andthen_def split: option.splits sum.splits)
  from qthread_exit_effect [OF ex] obtain c r where
    c: "threads s c = Some r"
    and sc: "qscheduler (s\<lparr>threads := (threads s)(c \<mapsto> r\<lparr>retval := v, state := FINISHED\<rparr>)\<rparr>) =
       Some (Inr (tr, s'))" by blast
  from qscheduler_threads [OF sc] exit_update_wf [OF c, of v xs] wf have "wf_state s' xs"
    by (simp add: wf_state_same
        [of s' "s\<lparr>threads := (threads s)(c \<mapsto> r\<lparr>retval := v, state := FINISHED\<rparr>)\<rparr>"])
  with rp Exit show ?thesis by (intro exI [of _ xs]) simp
next
  case (Join p rq)
  with ap obtain j where j: "qthread_join p rq s = Some (Inr (j, s'))" and rp: "rp = JoinReply j"
    by (auto simp: api_def andthen_def split: option.splits sum.splits)
  from qthread_join_effect [OF j] consider
    (wait) tr where "j = Waiting tr" "qscheduler s = Some (Inr (tr, s'))"
    | (fin) n r where "p = Some (Heap n)" "threads s (Heap n) = Some r" "state r = FINISHED"
        "stack r = None \<or> stack r \<noteq> running_stack s"
    by blast
  then show ?thesis
  proof cases
    case wait
    from qscheduler_threads [OF wait(2)] wf have "wf_state s' xs"
      by (simp add: wf_state_same [of s' s])
    with rp wait(1) Join show ?thesis by (intro exI [of _ xs]) simp
  next
    case fin
    from wf fin(2) have "Heap n \<in> set xs"
      by (auto simp: wf_state_def registry_def)
    then obtain pre post where xs: "xs = pre @ Heap n # post"
      by (auto dest: split_list)
    from qthread_join_finished [OF wf [unfolded xs] fin(2,3,4), of rq] j fin(1)
    have "wf_state s' (pre @ post)" "j = Joined 0 (if rq then Some (retval r) else None)"
      by auto
    with rp xs Join fin(1) show ?thesis by (intro exI [of _ "pre @ post"]) simp
  qed
qed

lemma run_wf:
  "wf_state s xs \<Longrightarrow> calls_ok cs s \<Longrightarrow> run cs s = Some (Inr (rs, s')) \<Longrightarrow>
   \<exists>xs'. wf_state s' xs' \<and>
     length xs' + sum_list (map joined rs) = length xs + sum_list (map created rs) \<and>
     mset xs' + mset (handles_gone cs rs) = mset xs + mset (handles_made cs rs)"
proof (induction cs arbitrary: s xs rs)
  case Nil
  then show ?case by auto
next
  case (Cons c cs)
  from Cons.prems(3) obtain r s1 rs1 where
    st: "api c s = Some (Inr (r, s1))" "run cs s1 = Some (Inr (rs1, s'))" "rs = r # rs1"
    by (auto simp: andthen_def split: option.splits sum.splits)
  from Cons.prems(2) st(1) have ok: "call_ok c s" "calls_ok cs s1"
    by simp_all
  from api_wf [OF Cons.prems(1) ok(1) st(1)] obtain xs1 where
    x1: "wf_state s1 xs1" "length xs1 + joined r = length xs + created r"
      "mset xs1 + mset (gone c r) = mset xs + mset (made c r)" by blast
  from Cons.IH [OF x1(1) ok(2) st(2)] obtain xs' where
    x2: "wf_state s' xs'"
      "length xs' + sum_list (map joined rs1) = length xs1 + sum_list (map created rs1)"
      "mset xs' + mset (handles_gone cs rs1) = mset xs1 + mset (handles_made cs rs1)"
    by blast
  from x1(2) x2(2) st(3)
  have l: "length xs' + sum_list (map joined rs) = length xs + sum_list (map created rs)"
    by simp
  have "mset xs' + mset (handles_gone (c # cs) rs) =
      (mset xs' + mset (handles_gone cs rs1)) + mset (gone c r)"
    by (simp add: st(3))
  also have "\<dots> = (mset xs1 + mset (gone c r)) + mset (handles_made cs rs1)"
    by (simp add: x2(3))
  also have "\<dots> = mset xs + mset (handles_made (c # cs) rs)"
    by (simp add: x1(3) st(3))
  finally have "mset xs' + mset (handles_gone (c # cs) rs) =
      mset xs + mset (handles_made (c # cs) rs)" .
  with x2(1) l show ?case by blast
qed

lemma wf_state_empty: "wf_state s [] = (thread_list s = None \<and> threads s = Map.empty)"
  by (auto simp: wf_state_def registry_def circular_chain_def circular_def stacks_owned_def)

section \<open>Exit and what follows it\<close>

lemma chain_member_live:
  assumes "circular_chain s (pre @ c # post)"
  shows "\<exists>r. threads s c = Some r"
  using circular_rotate [of "threads s" "thread_list s" pre c post] assms
  by (auto simp: circular_chain_def)

lemma qthread_exit_switch:
  assumes ch: "circular_chain s (pre @ c # post)" and cur: "current s = Some c"
    and r: "threads s c = Some r"
    and ord: "post @ pre = us @ t # vs"
    and nr: "\<forall>u\<in>set us. \<not> ready (threads s) u" and rt: "ready (threads s) t"
  shows "qthread_exit v s = Some (Inr (SwapContext c t,
     s\<lparr>threads := (threads s)(c \<mapsto> r\<lparr>retval := v, state := FINISHED\<rparr>), current := Some t\<rparr>))"
proof -
  define s1 where "s1 = s\<lparr>threads := (threads s)(c \<mapsto> r\<lparr>retval := v, state := FINISHED\<rparr>)\<rparr>"
  from ch have "distinct (pre @ c # post)" by (simp add: circular_chain_def)
  then have cn: "c \<notin> set (post @ pre)" by auto
  then have cu: "c \<notin> set us" "c \<noteq> t" unfolding ord by auto
  have ch1: "circular_chain s1 (pre @ c # post)"
    unfolding s1_def using ch by (simp add: exit_update_chain [OF r])
  have rd: "\<And>u. ready (threads s1) u \<Longrightarrow> ready (threads s) u"
    "\<And>u. u \<noteq> c \<Longrightarrow> ready (threads s) u \<Longrightarrow> ready (threads s1) u"
    by (auto simp: s1_def ready_def split: if_splits)
  have "qscheduler s1 = Some (Inr (SwapContext c t, s1\<lparr>current := Some t\<rparr>))"
  proof (rule qscheduler_switch [OF ch1 _ ord])
    show "current s1 = Some c" using cur by (simp add: s1_def)
    show "\<forall>u\<in>set us. \<not> ready (threads s1) u" using nr rd(1) by blast
    show "ready (threads s1) t" using rt cu(2) rd(2) [of t] by auto
  qed
  then show ?thesis
    using cur r by (simp add: qthread_exit_def s1_def)
qed

lemma qthread_exit_stay:
  assumes ch: "circular_chain s (pre @ c # post)" and cur: "current s = Some c"
    and r: "threads s c = Some r"
    and nr: "\<forall>u\<in>set (post @ pre). \<not> ready (threads s) u"
  shows "qthread_exit v s = Some (Inr (Returned,
     s\<lparr>threads := (threads s)(c \<mapsto> r\<lparr>retval := v, state := FINISHED\<rparr>)\<rparr>))"
proof -
  define s1 where "s1 = s\<lparr>threads := (threads s)(c \<mapsto> r\<lparr>retval := v, state := FINISHED\<rparr>)\<rparr>"
  from ch have "distinct (pre @ c # post)" by (simp add: circular_chain_def)
  then have cn: "c \<notin> set (post @ pre)" by auto
  have ch1: "circular_chain s1 (pre @ c # post)"
    unfolding s1_def using ch by (simp add: exit_update_chain [OF r])
  have rd: "\<And>u. ready (threads s1) u \<Longrightarrow> ready (threads s) u"
    "\<And>u. u \<noteq> c \<Longrightarrow> ready (threads s) u \<Longrightarrow> ready (threads s1) u"
    by (auto simp: s1_def ready_def split: if_splits)
  have "qscheduler s1 = Some (Inr (Returned, s1))"
  proof (rule qscheduler_stay [OF ch1])
    show "current s1 = Some c" using cur by (simp add: s1_def)
    show "\<forall>u\<in>set (post @ pre). \<not> ready (threads s1) u" using nr rd(1) by blast
  qed
  then show ?thesis
    using cur r by (simp add: qthread_exit_def s1_def)
qed

lemma first_ready_split:
  assumes "\<exists>t\<in>set xs. ready h t"
  shows "\<exists>us t vs. xs = us @ t # vs \<and> (\<forall>u\<in>set us. \<not> ready h u) \<and> ready h t"
  using split_list_first_prop [OF assms] by blast

lemma holds_result_relinked:
  assumes "relinked h (threads s')" and "h a = threads s a"
  shows "holds_result s' a v = holds_result s a v"
proof (cases "threads s a")
  case None
  with assms have "threads s' a = None" by (simp add: relinked_None)
  with None show ?thesis by (simp add: holds_result_def)
next
  case (Some r)
  with assms have "h a = Some r" by simp
  from relinked_Some [OF assms(1) this] Some show ?thesis
    by (auto simp: holds_result_def)
qed

lemma holds_result_not_ready: "holds_result s a v \<Longrightarrow> \<not> ready (threads s) a"
  by (auto simp: holds_result_def ready_def split: option.splits)

lemma qscheduler_keeps_result:
  assumes sc: "qscheduler s = Some (Inr (tr, s'))" and hr: "holds_result s a v"
  shows "holds_result s' a v \<and> (current s \<noteq> Some a \<longrightarrow> current s' \<noteq> Some a)"
proof -
  from qscheduler_threads [OF sc] hr have "holds_result s' a v"
    by (simp add: holds_result_def)
  moreover from qscheduler_effect [OF sc] holds_result_not_ready [OF hr]
  have "current s \<noteq> Some a \<longrightarrow> current s' \<noteq> Some a"
    by auto
  ultimately show ?thesis by simp
qed

lemma api_keeps_result:
  assumes hr: "holds_result s a v" and ok: "call_ok c s"
    and ap: "api c s = Some (Inr (rp, s'))"
    and nj: "\<not> joins a c" and ne: "current s = Some a \<longrightarrow> \<not> is_exit c"
  shows "holds_result s' a v \<and> (current s \<noteq> Some a \<longrightarrow> current s' \<noteq> Some a)"
proof (cases c)
  case (SetStacksize sz)
  with ap hr show ?thesis
    by (auto simp: api_def qthread_set_stacksize_def holds_result_def)
next
  case Self
  with ap hr show ?thesis by (auto simp: api_def)
next
  case (Create env nt sr ar)
  with ok have fresh: "malloc_fresh env s" by simp
  from ap Create obtain rc out where
    cr: "qthread_create env nt sr ar s = Some (Inr ((rc, out), s'))"
    by (auto simp: api_def andthen_def split: option.splits sum.splits)
  from qthread_create_effect [OF cr] have cur: "current s' = current s" by simp
  show ?thesis
  proof (cases "malloc_thread env = None \<or> malloc_stack env = None \<or> getcontext_rc env = - 1")
    case True
    from qthread_create_fail [OF fresh True, of nt sr ar] cr have "s' = s" by simp
    with hr show ?thesis by simp
  next
    case False
    with qthread_create_effect [OF cr] obtain n b where
      n: "malloc_thread env = Some n"
      and rl: "relinked ((threads s)(Heap n \<mapsto> created_record env (stack_size s) sr ar b))
        (threads s')" by auto
    from fresh n have "threads s (Heap n) = None" by (simp add: malloc_fresh_def)
    with hr have "a \<noteq> Heap n" by (auto simp: holds_result_def)
    then have "((threads s)(Heap n \<mapsto> created_record env (stack_size s) sr ar b)) a =
        threads s a" by simp
    from holds_result_relinked [OF rl this] hr cur show ?thesis by simp
  qed
next
  case Schedule
  with ap obtain tr where sc: "qscheduler s = Some (Inr (tr, s'))"
    by (auto simp: api_def andthen_def split: option.splits sum.splits)
  from qscheduler_keeps_result [OF sc hr] show ?thesis .
next
  case (Exit w)
  with ne have ca: "current s \<noteq> Some a" by simp
  from ap Exit obtain tr where ex: "qthread_exit w s = Some (Inr (tr, s'))"
    by (auto simp: api_def andthen_def split: option.splits sum.splits)
  from qthread_exit_effect [OF ex] obtain c r where
    c: "current s = Some c" "threads s c = Some r"
    and sc: "qscheduler (s\<lparr>threads := (threads s)(c \<mapsto> r\<lparr>retval := w, state := FINISHED\<rparr>)\<rparr>) =
       Some (Inr (tr, s'))" by blast
  from ca c have "c \<noteq> a" by auto
  with hr have "holds_result
      (s\<lparr>threads := (threads s)(c \<mapsto> r\<lparr>retval := w, state := FINISHED\<rparr>)\<rparr>) a v"
    by (simp add: holds_result_def)
  from qscheduler_keeps_result [OF sc this] ca show ?thesis by simp
next
  case (Join p rq)
  with nj have pa: "p \<noteq> Some a" by simp
  from ap Join obtain j where j: "qthread_join p rq s = Some (Inr (j, s'))"
    by (auto simp: api_def andthen_def split: option.splits sum.splits)
  from qthread_join_effect [OF j] consider
    (wait) tr where "qscheduler s = Some (Inr (tr, s'))"
    | (fin) n where "p = Some (Heap n)" "current s' = current s"
        "relinked ((threads s)(Heap n := None)) (threads s')"
    by blast
  then show ?thesis
  proof cases
    case wait
    from qscheduler_keeps_result [OF wait hr] show ?thesis .
  next
    case fin
    with pa have "((threads s)(Heap n := None)) a = threads s a" by auto
    from holds_result_relinked [OF fin(3) this] hr fin(2) show ?thesis by simp
  qed
qed

lemma run_keeps_result:
  "holds_result s a v \<Longrightarrow> calls_ok cs s \<Longrightarrow> run cs s = Some (Inr (rs, s')) \<Longrightarrow>
   \<forall>c\<in>set cs. \<not> joins a c \<Longrightarrow> current s = Some a \<longrightarrow> no_exit_by a cs s \<Longrightarrow>
   holds_result s' a v \<and> (current s \<noteq> Some a \<longrightarrow> current s' \<noteq> Some a)"
proof (induction cs arbitrary: s rs)
  case Nil
  then show ?case by simp
next
  case (Cons c cs)
  from Cons.prems(3) obtain r s1 rs1 where
    st: "api c s = Some (Inr (r, s1))" "run cs s1 = Some (Inr (rs1, s'))"
    by (auto simp: andthen_def split: option.splits sum.splits)
  from Cons.prems(2) st(1) have ok: "call_ok c s" "calls_ok cs s1"
    by simp_all
  from Cons.prems(5) st(1) have ne: "current s = Some a \<longrightarrow> \<not> is_exit c"
    and ne1: "current s = Some a \<longrightarrow> no_exit_by a cs s1"
    by auto
  from Cons.prems(4) have nj: "\<not> joins a c" "\<forall>c\<in>set cs. \<not> joins a c"
    by simp_all
  from api_keeps_result [OF Cons.prems(1) ok(1) st(1) nj(1) ne]
  have k: "holds_result s1 a v" "current s \<noteq> Some a \<longrightarrow> current s1 \<noteq> Some a"
    by simp_all
  from k(2) ne1 have "current s1 = Some a \<longrightarrow> no_exit_by a cs s1" by blast
  with k(1) ok(2) st(2) nj(2)
  have "holds_result s' a v \<and> (current s1 \<noteq> Some a \<longrightarrow> current s' \<noteq> Some a)"
    by (rule Cons.IH)
  with k(2) show ?case by blast
qed

section \<open>Evaluating runs\<close>

lemmas run_defs = api_def qthread_create_def qthread_join_def qthread_exit_def qscheduler_def
  dispatch_def unregister_def insert_tail_def store_def deref_def andthen_def free_block_def
  free_thread_def init_state_def Let_def qthread_set_stacksize_def qthread_self_def
  scan_from_head.simps scan_from_next.simps find_tail.simps unlink_scan.simps
  join_wait.simps running_stack_def adopted_def
  DEFAULT_STACK_SIZE_def malloc_fresh_def successful_def blank_def

lemma qthread_init_registers:
  assumes wf: "wf_state s xs" and fresh: "threads s (Host h) = None"
  shows "\<exists>s'. qthread_init h raw s = Some (Inr s') \<and> wf_state s' (xs @ [Host h]) \<and>
           current s' = current s \<and> stack_size s' = stack_size s \<and> stacks s' = stacks s \<and>
           relinked ((threads s)(Host h \<mapsto> raw\<lparr>state := READY, stack := None\<rparr>)) (threads s')"
proof -
  define a where "a = Host h"
  define r where "r = raw\<lparr>state := READY, stack := None\<rparr>"
  define hp where "hp = (threads s)(a \<mapsto> r)"
  from wf have d: "distinct xs" and ci: "circular (threads s) (thread_list s) xs"
    and dm: "set xs = dom (threads s)" and so: "stacks_owned s xs"
    by (simp_all add: wf_state_def registry_def circular_chain_def)
  from fresh dm have an: "a \<notin> set xs" by (auto simp: a_def)
  have ci': "circular hp (thread_list s) xs"
    unfolding hp_def using an ci by (simp add: circular_upd_other)
  have ha: "hp a = Some r" by (simp add: hp_def)
  from insert_tail_result [OF d ci' an ha] obtain head' h' where
    it: "insert_tail hp (thread_list s) (Some a) = Some (Inr (head', h'))"
    and c2: "circular h' head' (xs @ [a])" and rl: "relinked hp h'"
    by blast
  define s' where "s' = s\<lparr>thread_list := head', threads := h'\<rparr>"
  have res: "qthread_init h raw s = Some (Inr s')"
    using it by (simp add: qthread_init_def andthen_def a_def hp_def r_def s'_def)
  have ob: "\<And>x. owned_block h' x = (if x = a then None else owned_block (threads s) x)"
    unfolding relinked_owned [OF rl]
    by (simp add: owned_block_def hp_def r_def)
  have reg: "registry s' (xs @ [a])"
    unfolding registry_def circular_chain_def
    using d an c2 dm relinked_dom [OF rl]
    by (simp add: s'_def hp_def)
  have own: "stacks_owned s' (xs @ [a])"
    unfolding stacks_owned_def
  proof
    fix x
    assume x: "x \<in> set (xs @ [a])"
    show "case owned_block (threads s') x of
            None \<Rightarrow> True
          | Some c \<Rightarrow> stacks s' c \<noteq> None \<and>
              (\<forall>a'\<in>set (xs @ [a]). owned_block (threads s') a' = Some c \<longrightarrow> a' = x)"
    proof (cases "x = a")
      case True
      then show ?thesis by (simp add: s'_def ob)
    next
      case False
      with x have xin: "x \<in> set xs" by simp
      show ?thesis
      proof (cases "owned_block (threads s) x")
        case None
        with False show ?thesis by (simp add: s'_def ob)
      next
        case (Some c)
        with so xin have c: "stacks s c \<noteq> None"
          "\<forall>a'\<in>set xs. owned_block (threads s) a' = Some c \<longrightarrow> a' = x"
          by (auto simp: stacks_owned_def split: option.splits)
        with Some False show ?thesis
          by (auto simp: s'_def ob)
      qed
    qed
  qed
  have "wf_state s' (xs @ [a])"
    using reg own by (simp add: wf_state_def)
  moreover have "stack_size s' = stack_size s" "current s' = current s"
    "stacks s' = stacks s" "threads s' = h'"
    by (simp_all add: s'_def)
  ultimately show ?thesis
    using res rl unfolding a_def hp_def r_def by auto
qed

section \<open>The default stack size along a run\<close>

lemma api_stack_size:
  assumes ap: "api c s = Some (Inr (rp, s'))" and ns: "\<not> is_set_stacksize c"
  shows "stack_size s' = stack_size s"
proof (cases c)
  case (SetStacksize sz)
  with ns show ?thesis by simp
next
  case Self
  with ap show ?thesis by (auto simp: api_def)
next
  case (Create env nt sr ar)
  with ap obtain rc out where "qthread_create env nt sr ar s = Some (Inr ((rc, out), s'))"
    by (auto simp: api_def andthen_def split: option.splits sum.splits)
  from qthread_create_effect [OF this] show ?thesis by simp
next
  case Schedule
  with ap obtain tr where "qscheduler s = Some (Inr (tr, s'))"
    by (auto simp: api_def andthen_def split: option.splits sum.splits)
  from qscheduler_threads [OF this] show ?thesis by simp
next
  case (Exit v)
  with ap obtain tr where "qthread_exit v s = Some (Inr (tr, s'))"
    by (auto simp: api_def andthen_def split: option.splits sum.splits)
  from qthread_exit_effect [OF this] obtain c r where
    "qscheduler (s\<lparr>threads := (threads s)(c \<mapsto> r\<lparr>retval := v, state := FINISHED\<rparr>)\<rparr>) =
       Some (Inr (tr, s'))" by blast
  from qscheduler_threads [OF this] show ?thesis by simp
next
  case (Join p rq)
  with ap obtain j where j: "qthread_join p rq s = Some (Inr (j, s'))"
    by (auto simp: api_def andthen_def split: option.splits sum.splits)
  from qthread_join_effect [OF j] consider
    (wait) tr where "qscheduler s = Some (Inr (tr, s'))"
    | (fin) "stack_size s' = stack_size s"
    by blast
  then show ?thesis
  proof cases
    case wait
    from qscheduler_threads [OF wait] show ?thesis by simp
  next
    case fin
    then show ?thesis .
  qed
qed

lemma run_stack_size:
  "run cs s = Some (Inr (rs, s')) \<Longrightarrow> \<forall>c\<in>set cs. \<not> is_set_stacksize c \<Longrightarrow>
   stack_size s' = stack_size s"
proof (induction cs arbitrary: s rs)
  case Nil
  then show ?case by simp
next
  case (Cons c cs)
  from Cons.prems(1) obtain r s1 rs1 where
    st: "api c s = Some (Inr (r, s1))" "run cs s1 = Some (Inr (rs1, s'))"
    by (auto simp: andthen_def split: option.splits sum.splits)
  from Cons.prems(2) have "\<not> is_set_stacksize c" "\<forall>c\<in>set cs. \<not> is_set_stacksize c"
    by simp_all
  with api_stack_size [OF st(1)] Cons.IH [OF st(2)] show ?case by simp
qed

lemma set_stacksize_wf:
  "wf_state (qthread_set_stacksize S s) xs = wf_state s xs"
  by (rule wf_state_same) (simp_all add: qthread_set_stacksize_def)

section \<open>The scheduler's choice\<close>

text \<open>
  C1. With the registry \<open>pre @ c # post\<close> and \<open>c\<close> current, the records after \<open>c\<close> in
  circular order are \<open>post @ pre\<close>. If \<open>t\<close> is the first READY one among them (those
  before it, \<open>us\<close>, are not READY; those after it, \<open>vs\<close>, may be anything), the scheduler
  switches from \<open>c\<close> to \<open>t\<close>. And whatever the state, a record the scheduler transfers
  control to is READY. Nothing but list order and the READY test enters the choice.
\<close>

theorem scheduler_picks_first_ready_after_current:
  assumes "circular_chain s (pre @ c # post)"
    and "current s = Some c"
    and "post @ pre = us @ t # vs"
    and "\<forall>u\<in>set us. \<not> ready (threads s) u"
    and "ready (threads s) t"
  shows "qscheduler s = Some (Inr (SwapContext c t, s\<lparr>current := Some t\<rparr>)) \<and>
         (\<forall>s0 tr s1 a. qscheduler s0 = Some (Inr (tr, s1)) \<longrightarrow>
            (tr = SetContext a \<or> (\<exists>p. tr = SwapContext p a)) \<longrightarrow> ready (threads s0) a)"
proof
  show "qscheduler s = Some (Inr (SwapContext c t, s\<lparr>current := Some t\<rparr>))"
    using assms by (rule qscheduler_switch)
next
  show "\<forall>s0 tr s1 a. qscheduler s0 = Some (Inr (tr, s1)) \<longrightarrow>
          (tr = SetContext a \<or> (\<exists>p. tr = SwapContext p a)) \<longrightarrow> ready (threads s0) a"
  proof (intro allI impI)
    fix s0 tr s1 a
    assume "qscheduler s0 = Some (Inr (tr, s1))"
      and "tr = SetContext a \<or> (\<exists>p. tr = SwapContext p a)"
    with qscheduler_effect [of s0 tr s1] show "ready (threads s0) a"
      by auto
  qed
qed

theorem scheduler_picks_first_ready_after_current_witness:
  "circular_chain (trio (Some (Heap 2))) ([Heap 0, Heap 1] @ Heap 2 # []) \<and>
   current (trio (Some (Heap 2))) = Some (Heap 2) \<and>
   [] @ [Heap 0, Heap 1] = [Heap 0] @ Heap 1 # [] \<and>
   \<not> ready (threads (trio (Some (Heap 2)))) (Heap 0) \<and>
   ready (threads (trio (Some (Heap 2)))) (Heap 1) \<and>
   qscheduler (trio (Some (Heap 2))) =
     Some (Inr (SwapContext (Heap 2) (Heap 1), trio (Some (Heap 1))))"
proof -
  have h: "circular_chain (trio (Some (Heap 2))) ([Heap 0, Heap 1] @ Heap 2 # [])"
    "current (trio (Some (Heap 2))) = Some (Heap 2)"
    "[] @ [Heap 0, Heap 1] = [Heap 0] @ Heap 1 # []"
    "\<forall>u\<in>set [Heap 0]. \<not> ready (threads (trio (Some (Heap 2)))) u"
    "ready (threads (trio (Some (Heap 2)))) (Heap 1)"
    by (simp_all add: circular_chain_def circular_def trio_def blank_def ready_def)
  have "(trio (Some (Heap 2)))\<lparr>current := Some (Heap 1)\<rparr> = trio (Some (Heap 1))"
    by (simp add: trio_def)
  with scheduler_picks_first_ready_after_current [OF h] h show ?thesis
    by simp
qed

section \<open>The registry invariant\<close>

text \<open>
  C2, the last part as the specification words it: after creating K threads and joining
  all K the registry is empty. The example program registers its own record by hand before
  its first create (state \<open>adopted\<close>); it creates one thread, runs the scheduler (which
  first enters the host's own context, the head of the list, and on the next call switches
  to the new thread), the thread exits with 7 and the host joins it. One thread was
  created and one joined, the join stored 7, and the registry still holds the host's
  record: it is not empty.
\<close>

theorem joining_all_created_leaves_host_counterexample:
  "\<exists>s. run [Create (successful 1) True 0 0, Schedule, Schedule, Exit 7,
          Join (Some (Heap 1)) True] adopted =
        Some (Inr ([Created 0 (Some (Some (Heap 1))), Scheduled (SetContext (Host 0)),
          Scheduled (SwapContext (Host 0) (Heap 1)), Exited (SwapContext (Heap 1) (Host 0)),
          JoinReply (Joined 0 (Some 7))], s)) \<and>
      thread_list s = Some (Host 0) \<and> dom (threads s) = {Host 0}"
  by (simp add: run_defs)

text \<open>
  C2, amended. \<open>wf_state s xs\<close> says that the registry is empty, or one circular chain
  through the records \<open>xs\<close>, each once, and that these are all the live records (and that
  each owns its stack buffer). From such a state: a successful create ends in the chain
  \<open>xs\<close> with the new record at the tail; a join of a FINISHED member, made by a thread other
  than that member, ends in the chain without it, whose head is a surviving member or,
  when none survives, \<^verbatim>\<open>NULL\<close>; every library call that returns, and so every sequence of
  them, ends in such a state again, whose records are those of \<open>xs\<close> and the ones created,
  less the ones joined. The initial state is such a state. When the joins completed are
  exactly those of the threads created, the registry holds again the very records it held
  before: none when it was empty, the host's record when the host had registered itself.
\<close>

theorem registry_stays_one_circular_chain:
  assumes "wf_state s xs"
  shows "(malloc_fresh env s \<longrightarrow> malloc_thread env = Some n \<longrightarrow> malloc_stack env = Some b \<longrightarrow>
            getcontext_rc env \<noteq> - 1 \<longrightarrow>
            (\<exists>s'. qthread_create env nt sr ar s =
                 Some (Inr ((0, if nt then Some (Some (Heap n)) else None), s')) \<and>
               wf_state s' (xs @ [Heap n]))) \<and>
         (xs = pre @ Heap k # post \<longrightarrow> threads s (Heap k) = Some r \<longrightarrow> state r = FINISHED \<longrightarrow>
            current s \<noteq> Some (Heap k) \<longrightarrow>
            (\<exists>s'. qthread_join (Some (Heap k)) rq s =
                 Some (Inr (Joined 0 (if rq then Some (retval r) else None), s')) \<and>
               wf_state s' (pre @ post) \<and>
               thread_list s' = (case pre @ post of [] \<Rightarrow> None | x # ys \<Rightarrow> Some x))) \<and>
         (calls_ok cs s \<longrightarrow> run cs s = Some (Inr (rs, s1)) \<longrightarrow>
            (\<exists>xs1. wf_state s1 xs1 \<and>
               length xs1 + sum_list (map joined rs) = length xs + sum_list (map created rs) \<and>
               mset xs1 + mset (handles_gone cs rs) = mset xs + mset (handles_made cs rs))) \<and>
         wf_state init_state [] \<and>
         (calls_ok cs s \<longrightarrow> run cs s = Some (Inr (rs, s1)) \<longrightarrow>
            mset (handles_gone cs rs) = mset (handles_made cs rs) \<longrightarrow>
            (\<exists>xs1. wf_state s1 xs1 \<and> mset xs1 = mset xs) \<and>
            dom (threads s1) = dom (threads s) \<and>
            (thread_list s1 = None) = (thread_list s = None))"
proof -
  have cr: "\<exists>s'. qthread_create env nt sr ar s =
      Some (Inr ((0, if nt then Some (Some (Heap n)) else None), s')) \<and>
    wf_state s' (xs @ [Heap n])"
    if "malloc_fresh env s" "malloc_thread env = Some n" "malloc_stack env = Some b"
      "getcontext_rc env \<noteq> - 1"
    using qthread_create_success [OF assms that, of nt sr ar] by blast
  have jn: "\<exists>s'. qthread_join (Some (Heap k)) rq s =
      Some (Inr (Joined 0 (if rq then Some (retval r) else None), s')) \<and>
    wf_state s' (pre @ post) \<and>
    thread_list s' = (case pre @ post of [] \<Rightarrow> None | x # ys \<Rightarrow> Some x)"
    if xs: "xs = pre @ Heap k # post" and r: "threads s (Heap k) = Some r" "state r = FINISHED"
      and other: "current s \<noteq> Some (Heap k)"
  proof -
    from not_on_own_stack [OF assms r(1) other]
    have free: "stack r = None \<or> stack r \<noteq> running_stack s" .
    from qthread_join_finished [OF assms [unfolded xs] r free, of rq] obtain s' where
      s': "qthread_join (Some (Heap k)) rq s =
        Some (Inr (Joined 0 (if rq then Some (retval r) else None), s'))"
      "wf_state s' (pre @ post)"
      by blast
    from s'(2) have "thread_list s' = (case pre @ post of [] \<Rightarrow> None | x # ys \<Rightarrow> Some x)"
      by (cases "pre @ post")
        (simp_all add: wf_state_def registry_def circular_chain_def circular_def)
    with s' show ?thesis by blast
  qed
  have rn: "\<exists>xs1. wf_state s1 xs1 \<and>
      length xs1 + sum_list (map joined rs) = length xs + sum_list (map created rs) \<and>
      mset xs1 + mset (handles_gone cs rs) = mset xs + mset (handles_made cs rs)"
    if "calls_ok cs s" "run cs s = Some (Inr (rs, s1))"
    using assms that by (rule run_wf)
  have i: "wf_state init_state []"
    by (simp add: wf_state_empty init_state_def)
  have em: "(\<exists>xs1. wf_state s1 xs1 \<and> mset xs1 = mset xs) \<and>
      dom (threads s1) = dom (threads s) \<and>
      (thread_list s1 = None) = (thread_list s = None)"
    if ok: "calls_ok cs s" and rn: "run cs s = Some (Inr (rs, s1))"
      and eq: "mset (handles_gone cs rs) = mset (handles_made cs rs)"
  proof -
    from run_wf [OF assms ok rn] obtain xs1 where
      x: "wf_state s1 xs1"
      "mset xs1 + mset (handles_gone cs rs) = mset xs + mset (handles_made cs rs)"
      by blast
    from x(2) eq have m: "mset xs1 = mset xs" by simp
    then have st: "set xs1 = set xs" by (rule mset_eq_setD)
    from x(1) assms have "set xs1 = dom (threads s1)" "set xs = dom (threads s)"
      by (simp_all add: wf_state_def registry_def)
    with st have d: "dom (threads s1) = dom (threads s)" by simp
    from x(1) have h1: "(thread_list s1 = None) = (xs1 = [])"
      by (cases xs1) (simp_all add: wf_state_def registry_def circular_chain_def circular_def)
    from assms have h: "(thread_list s = None) = (xs = [])"
      by (cases xs) (simp_all add: wf_state_def registry_def circular_chain_def circular_def)
    from st have "(xs1 = []) = (xs = [])" by auto
    with h1 h have "(thread_list s1 = None) = (thread_list s = None)" by simp
    with x(1) m d show ?thesis by blast
  qed
  from cr jn rn i em show ?thesis by blast
qed

theorem registry_stays_one_circular_chain_witness:
  "wf_state adopted [Host 0] \<and>
   malloc_fresh (successful 1) adopted \<and>
   (\<exists>s'. qthread_create (successful 1) True 0 0 adopted =
      Some (Inr ((0, Some (Some (Heap 1))), s')) \<and> wf_state s' [Host 0, Heap 1]) \<and>
   calls_ok [Create (successful 1) True 0 0, Schedule, Schedule, Exit 7,
     Join (Some (Heap 1)) True] adopted \<and>
   (\<exists>s1. run [Create (successful 1) True 0 0, Schedule, Schedule, Exit 7,
       Join (Some (Heap 1)) True] adopted =
     Some (Inr ([Created 0 (Some (Some (Heap 1))), Scheduled (SetContext (Host 0)),
       Scheduled (SwapContext (Host 0) (Heap 1)), Exited (SwapContext (Heap 1) (Host 0)),
       JoinReply (Joined 0 (Some 7))], s1)) \<and>
     wf_state s1 [Host 0] \<and> dom (threads s1) = {Host 0} \<and> thread_list s1 \<noteq> None)"
proof -
  define cs where "cs = [Create (successful 1) True 0 0, Schedule, Schedule, Exit 7,
    Join (Some (Heap 1)) True]"
  define rs where "rs = [Created 0 (Some (Some (Heap 1))), Scheduled (SetContext (Host 0)),
    Scheduled (SwapContext (Host 0) (Heap 1)), Exited (SwapContext (Heap 1) (Host 0)),
    JoinReply (Joined 0 (Some 7))]"
  have wf: "wf_state adopted [Host 0]"
    by (simp add: wf_state_def registry_def circular_chain_def circular_def stacks_owned_def
        adopted_def init_state_def blank_def owned_block_def)
  have fr: "malloc_fresh (successful 1) adopted" "malloc_thread (successful 1) = Some 1"
    "malloc_stack (successful 1) = Some 1" "getcontext_rc (successful 1) \<noteq> - 1"
    by (simp_all add: run_defs)
  from registry_stays_one_circular_chain [OF wf, where env = "successful 1" and n = 1
      and b = 1 and nt = True and sr = 0 and ar = 0] fr
  have cr: "\<exists>s'. qthread_create (successful 1) True 0 0 adopted =
      Some (Inr ((0, Some (Some (Heap 1))), s')) \<and> wf_state s' [Host 0, Heap 1]"
    by simp
  have ok: "calls_ok cs adopted"
    unfolding cs_def by (simp add: run_defs)
  have "\<exists>s1. run cs adopted = Some (Inr (rs, s1))"
    unfolding cs_def rs_def by (simp add: run_defs)
  then obtain s1 where r: "run cs adopted = Some (Inr (rs, s1))" by blast
  have eq: "mset (handles_gone cs rs) = mset (handles_made cs rs)"
    by (simp add: cs_def rs_def successful_def)
  have tl: "thread_list adopted \<noteq> None" "dom (threads adopted) = {Host 0}"
    by (simp_all add: adopted_def)
  from registry_stays_one_circular_chain [OF wf, where cs = cs and rs = rs and ?s1.0 = s1,
      THEN conjunct2, THEN conjunct2, THEN conjunct2, THEN conjunct2] ok r eq
  have "(\<exists>xs1. wf_state s1 xs1 \<and> mset xs1 = mset [Host 0]) \<and>
      dom (threads s1) = dom (threads adopted) \<and>
      (thread_list s1 = None) = (thread_list adopted = None)"
    by simp
  then obtain xs1 where x: "wf_state s1 xs1" "mset xs1 = mset [Host 0]"
    and d: "dom (threads s1) = dom (threads adopted)"
    and h: "(thread_list s1 = None) = (thread_list adopted = None)"
    by (elim conjE exE)
  from x(2) have "xs1 = [Host 0]" by simp
  with x(1) d h tl have "wf_state s1 [Host 0] \<and> dom (threads s1) = {Host 0} \<and>
      thread_list s1 \<noteq> None"
    by simp
  with wf fr(1) cr ok r show ?thesis unfolding cs_def rs_def by blast
qed

section \<open>Exit\<close>

text \<open>
  C3, as the claim states it, at a single record that is current: nothing else is READY,
  the scheduler returns, and \<^verbatim>\<open>qthread_exit\<close> returns to its caller.
\<close>

theorem exit_never_returns_counterexample:
  "qthread_exit 5 (solo READY (Some (Heap 0))) =
     Some (Inr (Returned,
       (solo READY (Some (Heap 0)))
         \<lparr>threads := [Heap 0 \<mapsto> (blank READY (Some (Heap 0)))\<lparr>retval := 5, state := FINISHED\<rparr>]\<rparr>))"
  by (simp add: solo_def run_defs)

text \<open>
  C3, amended. With the registry \<open>pre @ c # post\<close> and \<open>c\<close> current, \<^verbatim>\<open>qthread_exit v\<close>
  stores \<open>v\<close> and FINISHED in the record of \<open>c\<close> and then is the scheduler's call on that
  state. If some other record is READY, control goes to one of them, with the two
  assignments made and nothing else changed but \<^verbatim>\<open>current\<close>; if none is, the call
  returns to its caller with the two assignments made. A record the scheduler transfers
  control to is never FINISHED.
\<close>

theorem exit_finishes_then_schedules:
  assumes "circular_chain s (pre @ c # post)" and "current s = Some c"
  shows "\<exists>r. threads s c = Some r \<and>
           qthread_exit v s =
             qscheduler (s\<lparr>threads := (threads s)(c \<mapsto> r\<lparr>retval := v, state := FINISHED\<rparr>)\<rparr>) \<and>
           ((\<exists>t\<in>set (post @ pre). ready (threads s) t) \<longrightarrow>
              (\<exists>t. t \<noteq> c \<and> ready (threads s) t \<and>
                 qthread_exit v s = Some (Inr (SwapContext c t,
                   s\<lparr>threads := (threads s)(c \<mapsto> r\<lparr>retval := v, state := FINISHED\<rparr>),
                     current := Some t\<rparr>)))) \<and>
           ((\<forall>t\<in>set (post @ pre). \<not> ready (threads s) t) \<longrightarrow>
              qthread_exit v s = Some (Inr (Returned,
                s\<lparr>threads := (threads s)(c \<mapsto> r\<lparr>retval := v, state := FINISHED\<rparr>)\<rparr>))) \<and>
           (\<forall>s0 tr s1 a r0. qscheduler s0 = Some (Inr (tr, s1)) \<longrightarrow>
              (tr = SetContext a \<or> (\<exists>p. tr = SwapContext p a)) \<longrightarrow>
              threads s0 a = Some r0 \<longrightarrow> state r0 \<noteq> FINISHED)"
proof -
  from chain_member_live [OF assms(1)] obtain r where r: "threads s c = Some r" by blast
  from assms(1) have "distinct (pre @ c # post)" by (simp add: circular_chain_def)
  then have cn: "c \<notin> set (post @ pre)" by auto
  have e: "qthread_exit v s =
      qscheduler (s\<lparr>threads := (threads s)(c \<mapsto> r\<lparr>retval := v, state := FINISHED\<rparr>)\<rparr>)"
    using assms(2) r by (simp add: qthread_exit_def)
  have sw: "\<exists>t. t \<noteq> c \<and> ready (threads s) t \<and>
      qthread_exit v s = Some (Inr (SwapContext c t,
        s\<lparr>threads := (threads s)(c \<mapsto> r\<lparr>retval := v, state := FINISHED\<rparr>),
          current := Some t\<rparr>))"
    if "\<exists>t\<in>set (post @ pre). ready (threads s) t"
  proof -
    from first_ready_split [OF that] obtain us t vs where
      o: "post @ pre = us @ t # vs" "\<forall>u\<in>set us. \<not> ready (threads s) u" "ready (threads s) t"
      by blast
    have "t \<in> set (post @ pre)" unfolding o(1) by simp
    with cn have "t \<noteq> c" by auto
    with qthread_exit_switch [OF assms r o, of v] o(3) show ?thesis by blast
  qed
  have st: "qthread_exit v s = Some (Inr (Returned,
      s\<lparr>threads := (threads s)(c \<mapsto> r\<lparr>retval := v, state := FINISHED\<rparr>)\<rparr>))"
    if "\<forall>t\<in>set (post @ pre). \<not> ready (threads s) t"
    using assms r that by (rule qthread_exit_stay)
  have nf: "\<forall>s0 tr s1 a r0. qscheduler s0 = Some (Inr (tr, s1)) \<longrightarrow>
      (tr = SetContext a \<or> (\<exists>p. tr = SwapContext p a)) \<longrightarrow>
      threads s0 a = Some r0 \<longrightarrow> state r0 \<noteq> FINISHED"
  proof (intro allI impI)
    fix s0 tr s1 a r0
    assume "qscheduler s0 = Some (Inr (tr, s1))"
      "tr = SetContext a \<or> (\<exists>p. tr = SwapContext p a)" "threads s0 a = Some r0"
    with qscheduler_effect [of s0 tr s1] show "state r0 \<noteq> FINISHED"
      by (auto simp: ready_def)
  qed
  from r e sw st nf show ?thesis by blast
qed

theorem exit_finishes_then_schedules_witness:
  "circular_chain (trio (Some (Heap 1))) ([Heap 0] @ Heap 1 # [Heap 2]) \<and>
   current (trio (Some (Heap 1))) = Some (Heap 1) \<and>
   ready (threads (trio (Some (Heap 1)))) (Heap 2) \<and>
   (\<exists>t r. qthread_exit 5 (trio (Some (Heap 1))) = Some (Inr (SwapContext (Heap 1) t,
      (trio (Some (Heap 1)))
        \<lparr>threads := (threads (trio (Some (Heap 1))))(Heap 1 \<mapsto> r\<lparr>retval := 5, state := FINISHED\<rparr>),
          current := Some t\<rparr>)))"
proof -
  have h: "circular_chain (trio (Some (Heap 1))) ([Heap 0] @ Heap 1 # [Heap 2])"
    "current (trio (Some (Heap 1))) = Some (Heap 1)"
    by (simp_all add: circular_chain_def circular_def trio_def blank_def)
  have rd: "ready (threads (trio (Some (Heap 1)))) (Heap 2)"
    by (simp add: ready_def trio_def blank_def)
  then have "\<exists>t\<in>set ([Heap 2] @ [Heap 0]). ready (threads (trio (Some (Heap 1)))) t"
    by simp
  with exit_finishes_then_schedules [OF h, of 5] h rd show ?thesis
    by blast
qed

section \<open>Dispatch and the RUNNING state\<close>

text \<open>
  C4, as the claim states it, at one READY record and no current thread: the scheduler
  makes the record current and enters it with \<^verbatim>\<open>setcontext\<close>, and the record's state is
  still READY, not RUNNING.
\<close>

theorem dispatch_marks_running_counterexample:
  "qscheduler (solo READY None) =
     Some (Inr (SetContext (Heap 0), solo READY (Some (Heap 0)))) \<and>
   map_option state (threads (solo READY (Some (Heap 0))) (Heap 0)) = Some READY \<and>
   \<not> running (threads (solo READY (Some (Heap 0)))) (Heap 0)"
  by (simp add: solo_def running_def run_defs)

text \<open>
  C4, amended. In the bootstrap case (no current thread, \<open>t\<close> the first READY record from
  the head) and in the normal case (\<open>t\<close> the first READY record after the current one) the
  scheduler assigns \<^verbatim>\<open>current\<close> and transfers control, and the state it leaves differs
  from the one it was called in by \<^verbatim>\<open>current\<close> alone: the record entered is still
  READY. Whenever the scheduler transfers control, the record entered is the new
  \<^verbatim>\<open>current\<close> and no record has changed. No library call makes a record RUNNING: a
  state without a RUNNING record, as the initial state is, stays without one.
\<close>

theorem dispatch_sets_current_and_never_running:
  "(circular_chain s (us @ t # vs) \<longrightarrow> current s = None \<longrightarrow>
      (\<forall>u\<in>set us. \<not> ready (threads s) u) \<longrightarrow> ready (threads s) t \<longrightarrow>
      qscheduler s = Some (Inr (SetContext t, s\<lparr>current := Some t\<rparr>))) \<and>
   (circular_chain s (pre @ c # post) \<longrightarrow> current s = Some c \<longrightarrow> post @ pre = us @ t # vs \<longrightarrow>
      (\<forall>u\<in>set us. \<not> ready (threads s) u) \<longrightarrow> ready (threads s) t \<longrightarrow>
      qscheduler s = Some (Inr (SwapContext c t, s\<lparr>current := Some t\<rparr>))) \<and>
   (qscheduler s = Some (Inr (tr, s')) \<longrightarrow> tr \<noteq> Returned \<longrightarrow>
      (\<exists>a. (tr = SetContext a \<or> (\<exists>p. tr = SwapContext p a)) \<and>
           s' = s\<lparr>current := Some a\<rparr> \<and> ready (threads s') a)) \<and>
   no_running init_state \<and>
   (no_running s0 \<longrightarrow> run cs s0 = Some (Inr (rs, s1)) \<longrightarrow> no_running s1)"
proof (intro conjI impI)
  assume "circular_chain s (us @ t # vs)" "current s = None"
    "\<forall>u\<in>set us. \<not> ready (threads s) u" "ready (threads s) t"
  then show "qscheduler s = Some (Inr (SetContext t, s\<lparr>current := Some t\<rparr>))"
    by (rule qscheduler_bootstrap)
next
  assume "circular_chain s (pre @ c # post)" "current s = Some c" "post @ pre = us @ t # vs"
    "\<forall>u\<in>set us. \<not> ready (threads s) u" "ready (threads s) t"
  then show "qscheduler s = Some (Inr (SwapContext c t, s\<lparr>current := Some t\<rparr>))"
    by (rule qscheduler_switch)
next
  assume "qscheduler s = Some (Inr (tr, s'))" "tr \<noteq> Returned"
  with qscheduler_effect [of s tr s']
  show "\<exists>a. (tr = SetContext a \<or> (\<exists>p. tr = SwapContext p a)) \<and>
      s' = s\<lparr>current := Some a\<rparr> \<and> ready (threads s') a"
    by auto
next
  show "no_running init_state"
    by (simp add: no_running_def running_def init_state_def)
next
  assume "no_running s0" "run cs s0 = Some (Inr (rs, s1))"
  then show "no_running s1" by (rule run_no_running)
qed

theorem dispatch_sets_current_and_never_running_witness:
  "circular_chain (trio None) ([Heap 0] @ Heap 1 # [Heap 2]) \<and>
   \<not> ready (threads (trio None)) (Heap 0) \<and> ready (threads (trio None)) (Heap 1) \<and>
   qscheduler (trio None) = Some (Inr (SetContext (Heap 1), trio (Some (Heap 1)))) \<and>
   qscheduler (trio (Some (Heap 1))) =
     Some (Inr (SwapContext (Heap 1) (Heap 2), trio (Some (Heap 2)))) \<and>
   ready (threads (trio (Some (Heap 2)))) (Heap 2) \<and>
   (\<exists>rs s1. run [Create (successful 1) True 0 0, Schedule, Exit 5] init_state =
       Some (Inr (rs, s1)) \<and> no_running s1)"
proof -
  have c: "circular_chain (trio x) ([Heap 0] @ Heap 1 # [Heap 2])"
    "circular_chain (trio x) ([Heap 0, Heap 1] @ Heap 2 # [])"
    "circular_chain (trio x) ([Heap 0] @ Heap 1 # [Heap 2])" for x
    by (simp_all add: circular_chain_def circular_def trio_def blank_def)
  have rd: "\<forall>u\<in>set [Heap 0]. \<not> ready (threads (trio x)) u"
    "\<forall>u\<in>set []. \<not> ready (threads (trio x)) u"
    "ready (threads (trio x)) (Heap 1)" "ready (threads (trio x)) (Heap 2)" for x
    by (simp_all add: ready_def trio_def blank_def)
  have u: "(trio x)\<lparr>current := y\<rparr> = trio y" for x y
    by (simp add: trio_def)
  have cu: "current (trio x) = x" for x by (simp add: trio_def)
  note th = dispatch_sets_current_and_never_running
  have b: "qscheduler (trio None) = Some (Inr (SetContext (Heap 1), trio (Some (Heap 1))))"
    using th [where s = "trio None" and us = "[Heap 0]" and t = "Heap 1" and vs = "[Heap 2]"]
      c(1) rd(1,3) cu u by simp
  have w: "qscheduler (trio (Some (Heap 1))) =
      Some (Inr (SwapContext (Heap 1) (Heap 2), trio (Some (Heap 2))))"
    using th [where s = "trio (Some (Heap 1))" and us = "[]" and t = "Heap 2" and vs = "[Heap 0]"
        and pre = "[Heap 0]" and c = "Heap 1" and post = "[Heap 2]"]
      c(3) rd(2,4) cu u by simp
  have "\<exists>rs s1. run [Create (successful 1) True 0 0, Schedule, Exit 5] init_state =
      Some (Inr (rs, s1))"
    by (simp add: run_defs)
  then obtain rs s1 where
    r: "run [Create (successful 1) True 0 0, Schedule, Exit 5] init_state = Some (Inr (rs, s1))"
    by blast
  have "no_running s1"
    using th [where ?s0.0 = init_state
        and cs = "[Create (successful 1) True 0 0, Schedule, Exit 5]" and rs = rs and ?s1.0 = s1] r
    by simp
  with r b w c(1) rd show ?thesis by auto
qed

section \<open>Creation\<close>

text \<open>
  C5. Under the contract of \<^verbatim>\<open>malloc\<close>: if the record or the stack buffer cannot be
  allocated, or \<^verbatim>\<open>getcontext\<close> fails, \<^verbatim>\<open>qthread_create\<close> returns -1, stores no handle,
  and the state after the call is the state before it, so the blocks obtained during the
  call are free again and nothing is registered. Otherwise, on a well-formed registry
  \<open>xs\<close>, it returns 0, and the registry is \<open>xs\<close> with the new record, READY, at the tail.
\<close>

theorem create_fails_cleanly_or_registers_at_tail:
  assumes "malloc_fresh env s"
  shows "(malloc_thread env = None \<or> malloc_stack env = None \<or> getcontext_rc env = - 1 \<longrightarrow>
            qthread_create env nt sr ar s = Some (Inr ((- 1, None), s))) \<and>
         (wf_state s xs \<longrightarrow> malloc_thread env = Some n \<longrightarrow> malloc_stack env = Some b \<longrightarrow>
            getcontext_rc env \<noteq> - 1 \<longrightarrow>
            (\<exists>s'. qthread_create env nt sr ar s =
                 Some (Inr ((0, if nt then Some (Some (Heap n)) else None), s')) \<and>
               registry s' (xs @ [Heap n]) \<and> ready (threads s') (Heap n)))"
proof (intro conjI impI)
  assume "malloc_thread env = None \<or> malloc_stack env = None \<or> getcontext_rc env = - 1"
  with assms show "qthread_create env nt sr ar s = Some (Inr ((- 1, None), s))"
    by (rule qthread_create_fail)
next
  assume wf: "wf_state s xs" and e: "malloc_thread env = Some n" "malloc_stack env = Some b"
    "getcontext_rc env \<noteq> - 1"
  from qthread_create_success [OF wf assms e, of nt sr ar] obtain s' where
    s': "qthread_create env nt sr ar s =
      Some (Inr ((0, if nt then Some (Some (Heap n)) else None), s'))"
    "wf_state s' (xs @ [Heap n])"
    "relinked ((threads s)(Heap n \<mapsto> created_record env (stack_size s) sr ar b)) (threads s')"
    by blast
  have "ready (threads s') (Heap n)"
    unfolding relinked_ready [OF s'(3)] by (simp add: ready_def created_record_def)
  with s'(1,2) show "\<exists>s'. qthread_create env nt sr ar s =
      Some (Inr ((0, if nt then Some (Some (Heap n)) else None), s')) \<and>
    registry s' (xs @ [Heap n]) \<and> ready (threads s') (Heap n)"
    by (auto simp: wf_state_def)
qed

theorem create_fails_cleanly_or_registers_at_tail_witness:
  "malloc_fresh ((successful 3)\<lparr>getcontext_rc := - 1\<rparr>) (trio None) \<and>
   qthread_create ((successful 3)\<lparr>getcontext_rc := - 1\<rparr>) True 0 0 (trio None) =
     Some (Inr ((- 1, None), trio None)) \<and>
   malloc_fresh (successful 3) (trio None) \<and>
   wf_state (trio None) [Heap 0, Heap 1, Heap 2] \<and>
   (\<exists>s'. qthread_create (successful 3) True 0 0 (trio None) =
       Some (Inr ((0, Some (Some (Heap 3))), s')) \<and>
     registry s' [Heap 0, Heap 1, Heap 2, Heap 3] \<and> ready (threads s') (Heap 3))"
proof -
  have f: "malloc_fresh ((successful 3)\<lparr>getcontext_rc := - 1\<rparr>) (trio None)"
    "malloc_fresh (successful 3) (trio None)"
    by (simp_all add: malloc_fresh_def successful_def trio_def)
  have wf: "wf_state (trio None) [Heap 0, Heap 1, Heap 2]"
    by (auto simp: wf_state_def registry_def circular_chain_def circular_def trio_def
        blank_def stacks_owned_def owned_block_def)
  have e: "getcontext_rc ((successful 3)\<lparr>getcontext_rc := - 1\<rparr>) = - 1"
    "malloc_thread (successful 3) = Some 3" "malloc_stack (successful 3) = Some 3"
    "getcontext_rc (successful 3) \<noteq> - 1"
    by (simp_all add: successful_def)
  from create_fails_cleanly_or_registers_at_tail [OF f(1), of True 0 0] e(1)
  have "qthread_create ((successful 3)\<lparr>getcontext_rc := - 1\<rparr>) True 0 0 (trio None) =
      Some (Inr ((- 1, None), trio None))"
    by simp
  moreover from create_fails_cleanly_or_registers_at_tail
    [OF f(2), of True 0 0 "[Heap 0, Heap 1, Heap 2]" 3 3] wf e(2-4)
  have "\<exists>s'. qthread_create (successful 3) True 0 0 (trio None) =
       Some (Inr ((0, Some (Some (Heap 3))), s')) \<and>
     registry s' [Heap 0, Heap 1, Heap 2, Heap 3] \<and> ready (threads s') (Heap 3)"
    by simp
  ultimately show ?thesis using f wf by blast
qed

section \<open>The result of a thread\<close>

text \<open>
  C6, as the specification words it: a thread calls exit(V), and a subsequent join on that
  thread yields V. From the initial state one thread is created and dispatched, and
  calls \<^verbatim>\<open>qthread_exit\<close> with 5. No other record is READY, so the call returns to it
  (C3). The thread creates a second thread and returns from its start routine, whereupon
  \<^verbatim>\<open>qthread_wrapper\<close> calls \<^verbatim>\<open>qthread_exit(NULL)\<close> for it (line 118): the result slot is
  written again and the scheduler switches to the second thread. That thread joins the
  first, and the join stores 0, the null pointer, not 5.
\<close>

theorem join_after_second_exit_counterexample:
  "\<exists>s. run [Create (successful 1) True 0 0, Schedule, Exit 5, Create (successful 2) True 0 0,
          Exit 0, Join (Some (Heap 1)) True] init_state =
        Some (Inr ([Created 0 (Some (Some (Heap 1))), Scheduled (SetContext (Heap 1)),
          Exited Returned, Created 0 (Some (Some (Heap 2))),
          Exited (SwapContext (Heap 1) (Heap 2)), JoinReply (Joined 0 (Some 0))], s))"
  by (simp add: run_defs)

text \<open>
  C6, amended. Let the current thread, a member of a well-formed registry, call
  \<^verbatim>\<open>qthread_exit v\<close>. The call ends (in a switch, or in a return when nothing else is
  READY). Let any library calls follow, under the contract of \<^verbatim>\<open>malloc\<close>, none of them a
  join of this thread. If the exit switched to another thread, nothing more is asked: the
  thread never runs again. If the exit returned to the thread, let the thread make no
  further call of \<^verbatim>\<open>qthread_exit\<close> (other threads may), and let the join be made by
  another thread. Then a join of the thread with a non-null \<^verbatim>\<open>retval\<close> completes,
  returns 0, and what it stores in \<^verbatim>\<open>*retval\<close> is \<open>v\<close>, the word itself.
\<close>

theorem join_yields_the_last_exit_value:
  assumes "wf_state s xs" and "current s = Some (Heap n)" and "Heap n \<in> set xs"
  shows "\<exists>tr s1. qthread_exit v s = Some (Inr (tr, s1)) \<and>
           (\<forall>cs rs s2. calls_ok cs s1 \<longrightarrow> run cs s1 = Some (Inr (rs, s2)) \<longrightarrow>
              (\<forall>c\<in>set cs. \<not> joins (Heap n) c) \<longrightarrow>
              (tr = Returned \<longrightarrow> no_exit_by (Heap n) cs s1 \<and> current s2 \<noteq> Some (Heap n)) \<longrightarrow>
              (\<exists>s3. qthread_join (Some (Heap n)) True s2 =
                 Some (Inr (Joined 0 (Some v), s3))))"
proof -
  define a where "a = Heap n"
  from assms(3) obtain pre post where xs: "xs = pre @ a # post"
    unfolding a_def by (auto dest: split_list)
  from assms(1) have ch: "circular_chain s (pre @ a # post)"
    by (simp add: wf_state_def registry_def xs)
  from chain_member_live [OF ch] obtain r where r: "threads s a = Some r" by blast
  have cur: "current s = Some a" using assms(2) by (simp add: a_def)
  define s0 where "s0 = s\<lparr>threads := (threads s)(a \<mapsto> r\<lparr>retval := v, state := FINISHED\<rparr>)\<rparr>"
  have wf0: "wf_state s0 xs"
    unfolding s0_def using assms(1) by (simp add: exit_update_wf [OF r])
  have hr0: "holds_result s0 a v"
    by (simp add: s0_def holds_result_def)
  obtain tr s1 where ex: "qthread_exit v s = Some (Inr (tr, s1))"
    and sc: "qscheduler s0 = Some (Inr (tr, s1))"
    and rt: "tr \<noteq> Returned \<longrightarrow> current s1 \<noteq> Some a"
  proof (cases "\<exists>t\<in>set (post @ pre). ready (threads s) t")
    case True
    from first_ready_split [OF True] obtain us t vs where
      o: "post @ pre = us @ t # vs" "\<forall>u\<in>set us. \<not> ready (threads s) u" "ready (threads s) t"
      by blast
    from ch have "distinct (pre @ a # post)" by (simp add: circular_chain_def)
    moreover have "t \<in> set (post @ pre)" unfolding o(1) by simp
    ultimately have ta: "t \<noteq> a" by auto
    have e: "qthread_exit v s = Some (Inr (SwapContext a t, s0\<lparr>current := Some t\<rparr>))"
      using qthread_exit_switch [OF ch cur r o, of v] by (simp add: s0_def)
    moreover have "qscheduler s0 = Some (Inr (SwapContext a t, s0\<lparr>current := Some t\<rparr>))"
      using e cur r by (simp add: qthread_exit_def s0_def)
    moreover have "current (s0\<lparr>current := Some t\<rparr>) \<noteq> Some a"
      using ta by simp
    ultimately show ?thesis by (intro that) auto
  next
    case False
    then have nr: "\<forall>u\<in>set (post @ pre). \<not> ready (threads s) u" by blast
    have e: "qthread_exit v s = Some (Inr (Returned, s0))"
      using qthread_exit_stay [OF ch cur r nr, of v] by (simp add: s0_def)
    moreover have "qscheduler s0 = Some (Inr (Returned, s0))"
      using e cur r by (simp add: qthread_exit_def s0_def)
    ultimately show ?thesis by (intro that) auto
  qed
  from qscheduler_keeps_result [OF sc hr0] have hr1: "holds_result s1 a v" by simp
  from qscheduler_threads [OF sc] wf0 have wf1: "wf_state s1 xs"
    by (simp add: wf_state_same [of s1 s0])
  have main: "\<exists>s3. qthread_join (Some a) True s2 = Some (Inr (Joined 0 (Some v), s3))"
    if ok: "calls_ok cs s1" and rn: "run cs s1 = Some (Inr (rs, s2))"
      and nj: "\<forall>c\<in>set cs. \<not> joins a c"
      and ne: "tr = Returned \<longrightarrow> no_exit_by a cs s1 \<and> current s2 \<noteq> Some a"
    for cs rs s2
  proof -
    from rt ne have "current s1 = Some a \<longrightarrow> no_exit_by a cs s1" by blast
    with hr1 ok rn nj
    have "holds_result s2 a v \<and> (current s1 \<noteq> Some a \<longrightarrow> current s2 \<noteq> Some a)"
      by (rule run_keeps_result)
    with rt ne have hr2: "holds_result s2 a v" and other: "current s2 \<noteq> Some a"
      by blast+
    from run_wf [OF wf1 ok rn] obtain xs2 where wf2: "wf_state s2 xs2" by blast
    from hr2 obtain r2 where r2: "threads s2 a = Some r2" "state r2 = FINISHED" "retval r2 = v"
      by (auto simp: holds_result_def split: option.splits)
    from not_on_own_stack [OF wf2 r2(1) other]
    have free: "stack r2 = None \<or> stack r2 \<noteq> running_stack s2" .
    from wf2 r2(1) have "a \<in> set xs2" by (auto simp: wf_state_def registry_def)
    then obtain p2 q2 where x2: "xs2 = p2 @ Heap n # q2"
      unfolding a_def by (auto dest: split_list)
    from qthread_join_finished [OF wf2 [unfolded x2] r2(1) [unfolded a_def] r2(2) free,
        of True] r2(3)
    show ?thesis by (auto simp: a_def)
  qed
  from ex main show ?thesis unfolding a_def by blast
qed

theorem join_yields_the_last_exit_value_witness:
  "(\<exists>s s1 rs s2 s3.
      run [Create (successful 1) True 0 0, Schedule] init_state =
        Some (Inr ([Created 0 (Some (Some (Heap 1))), Scheduled (SetContext (Heap 1))], s)) \<and>
      wf_state s [Heap 1] \<and> current s = Some (Heap 1) \<and>
      qthread_exit 5 s = Some (Inr (Returned, s1)) \<and>
      calls_ok [Create (successful 2) True 0 0, Schedule, Exit 9] s1 \<and>
      run [Create (successful 2) True 0 0, Schedule, Exit 9] s1 =
        Some (Inr ([Created 0 (Some (Some (Heap 2))),
          Scheduled (SwapContext (Heap 1) (Heap 2)), Exited Returned], s2)) \<and>
      no_exit_by (Heap 1) [Create (successful 2) True 0 0, Schedule, Exit 9] s1 \<and>
      current s2 = Some (Heap 2) \<and>
      qthread_join (Some (Heap 1)) True s2 = Some (Inr (Joined 0 (Some 5), s3))) \<and>
   wf_state (trio (Some (Heap 1))) [Heap 0, Heap 1, Heap 2] \<and>
   current (trio (Some (Heap 1))) = Some (Heap 1) \<and>
   (\<exists>s1 rs s2 s3.
      qthread_exit 9 (trio (Some (Heap 1))) =
        Some (Inr (SwapContext (Heap 1) (Heap 2), s1)) \<and>
      calls_ok [Exit 3, Join (Some (Heap 0)) False] s1 \<and>
      run [Exit 3, Join (Some (Heap 0)) False] s1 = Some (Inr (rs, s2)) \<and>
      qthread_join (Some (Heap 1)) True s2 = Some (Inr (Joined 0 (Some 9), s3)))"
proof -
  define cs0 where "cs0 = [Create (successful 1) True 0 0, Schedule]"
  define rs0 where "rs0 = [Created 0 (Some (Some (Heap 1))), Scheduled (SetContext (Heap 1))]"
  define cs1 where "cs1 = [Create (successful 2) True 0 0, Schedule, Exit 9]"
  define rs1 where "rs1 = [Created 0 (Some (Some (Heap 2))),
    Scheduled (SwapContext (Heap 1) (Heap 2)), Exited Returned]"
  define cs where "cs = [Exit 3, Join (Some (Heap 0)) False]"
  have i: "wf_state init_state []"
    by (simp add: wf_state_empty init_state_def)
  have ok0: "calls_ok cs0 init_state"
    unfolding cs0_def by (simp add: run_defs)
  have "\<exists>s s1 s2. run cs0 init_state = Some (Inr (rs0, s)) \<and> current s = Some (Heap 1) \<and>
      qthread_exit 5 s = Some (Inr (Returned, s1)) \<and> calls_ok cs1 s1 \<and>
      run cs1 s1 = Some (Inr (rs1, s2)) \<and> no_exit_by (Heap 1) cs1 s1 \<and>
      current s2 = Some (Heap 2)"
    unfolding cs0_def rs0_def cs1_def rs1_def by (simp add: run_defs)
  then obtain s s1 s2 where
    rn0: "run cs0 init_state = Some (Inr (rs0, s))" and cu: "current s = Some (Heap 1)"
    and ex: "qthread_exit 5 s = Some (Inr (Returned, s1))"
    and ok1: "calls_ok cs1 s1" and rn1: "run cs1 s1 = Some (Inr (rs1, s2))"
    and ne: "no_exit_by (Heap 1) cs1 s1" and c2: "current s2 = Some (Heap 2)"
    by blast
  from run_wf [OF i ok0 rn0] obtain xs' where
    x: "wf_state s xs'" "mset xs' + mset (handles_gone cs0 rs0) =
      mset ([] :: addr list) + mset (handles_made cs0 rs0)"
    by blast
  from x(2) have "xs' = [Heap 1]"
    by (simp add: cs0_def rs0_def successful_def)
  with x(1) have wf: "wf_state s [Heap 1]" by simp
  have m: "Heap 1 \<in> set [Heap 1]" by simp
  from join_yields_the_last_exit_value [OF wf cu m, of 5] ex
  have after: "calls_ok cs s1 \<Longrightarrow> run cs s1 = Some (Inr (rs, s2)) \<Longrightarrow>
      \<forall>c\<in>set cs. \<not> joins (Heap 1) c \<Longrightarrow>
      no_exit_by (Heap 1) cs s1 \<and> current s2 \<noteq> Some (Heap 1) \<Longrightarrow>
      \<exists>s3. qthread_join (Some (Heap 1)) True s2 = Some (Inr (Joined 0 (Some 5), s3))"
    for cs rs s2
    by auto
  have "\<forall>c\<in>set cs1. \<not> joins (Heap 1) c"
    by (simp add: cs1_def)
  moreover from ne c2 have "no_exit_by (Heap 1) cs1 s1 \<and> current s2 \<noteq> Some (Heap 1)"
    by simp
  ultimately obtain s3 where
    j: "qthread_join (Some (Heap 1)) True s2 = Some (Inr (Joined 0 (Some 5), s3))"
    using after [OF ok1 rn1] by blast
  from rn0 wf cu ex ok1 rn1 ne c2 j
  have first: "\<exists>s s1 rs s2 s3.
      run [Create (successful 1) True 0 0, Schedule] init_state =
        Some (Inr ([Created 0 (Some (Some (Heap 1))), Scheduled (SetContext (Heap 1))], s)) \<and>
      wf_state s [Heap 1] \<and> current s = Some (Heap 1) \<and>
      qthread_exit 5 s = Some (Inr (Returned, s1)) \<and>
      calls_ok [Create (successful 2) True 0 0, Schedule, Exit 9] s1 \<and>
      run [Create (successful 2) True 0 0, Schedule, Exit 9] s1 =
        Some (Inr ([Created 0 (Some (Some (Heap 2))),
          Scheduled (SwapContext (Heap 1) (Heap 2)), Exited Returned], s2)) \<and>
      no_exit_by (Heap 1) [Create (successful 2) True 0 0, Schedule, Exit 9] s1 \<and>
      current s2 = Some (Heap 2) \<and>
      qthread_join (Some (Heap 1)) True s2 = Some (Inr (Joined 0 (Some 5), s3))"
    unfolding cs0_def rs0_def cs1_def rs1_def by blast
  have wft: "wf_state (trio (Some (Heap 1))) [Heap 0, Heap 1, Heap 2]"
    by (auto simp: wf_state_def registry_def circular_chain_def circular_def trio_def
        blank_def stacks_owned_def owned_block_def)
  have cut: "current (trio (Some (Heap 1))) = Some (Heap 1)"
    by (simp add: trio_def)
  have mt: "Heap 1 \<in> set [Heap 0, Heap 1, Heap 2]" by simp
  from join_yields_the_last_exit_value [OF wft cut mt, of 9] obtain tr t1 where
    ext: "qthread_exit 9 (trio (Some (Heap 1))) = Some (Inr (tr, t1))"
    and aftert: "\<And>cs rs s2. calls_ok cs t1 \<Longrightarrow> run cs t1 = Some (Inr (rs, s2)) \<Longrightarrow>
      \<forall>c\<in>set cs. \<not> joins (Heap 1) c \<Longrightarrow>
      (tr = Returned \<longrightarrow> no_exit_by (Heap 1) cs t1 \<and> current s2 \<noteq> Some (Heap 1)) \<Longrightarrow>
      \<exists>s3. qthread_join (Some (Heap 1)) True s2 = Some (Inr (Joined 0 (Some 9), s3))"
    by blast
  have "\<exists>s. qthread_exit 9 (trio (Some (Heap 1))) =
      Some (Inr (SwapContext (Heap 1) (Heap 2), s)) \<and> calls_ok cs s \<and>
      (\<exists>rs s2. run cs s = Some (Inr (rs, s2)))"
    unfolding cs_def by (simp add: trio_def run_defs)
  with ext obtain rst t2 where tr: "tr = SwapContext (Heap 1) (Heap 2)"
    and okt: "calls_ok cs t1" and rnt: "run cs t1 = Some (Inr (rst, t2))"
    by auto
  have "\<forall>c\<in>set cs. \<not> joins (Heap 1) c"
    "tr = Returned \<longrightarrow> no_exit_by (Heap 1) cs t1 \<and> current t2 \<noteq> Some (Heap 1)"
    by (simp_all add: cs_def tr)
  from aftert [OF okt rnt this] obtain t3 where
    "qthread_join (Some (Heap 1)) True t2 = Some (Inr (Joined 0 (Some 9), t3))"
    by blast
  with ext tr okt rnt have second: "\<exists>s1 rs s2 s3.
      qthread_exit 9 (trio (Some (Heap 1))) =
        Some (Inr (SwapContext (Heap 1) (Heap 2), s1)) \<and>
      calls_ok [Exit 3, Join (Some (Heap 0)) False] s1 \<and>
      run [Exit 3, Join (Some (Heap 0)) False] s1 = Some (Inr (rs, s2)) \<and>
      qthread_join (Some (Heap 1)) True s2 = Some (Inr (Joined 0 (Some 9), s3))"
    unfolding cs_def by blast
  from first wft cut second show ?thesis by blast
qed

section \<open>No other READY record\<close>

text \<open>
  C7. With the registry \<open>pre @ c # post\<close> and \<open>c\<close> current, if no record after \<open>c\<close> in
  circular order is READY, the scheduler returns to its caller and the state is the one it
  was called in, whether \<open>c\<close> itself is READY (it goes on running) or not.
\<close>

theorem scheduler_without_other_ready_returns_unchanged:
  assumes "circular_chain s (pre @ c # post)"
    and "current s = Some c"
    and "\<forall>u\<in>set (post @ pre). \<not> ready (threads s) u"
  shows "qscheduler s = Some (Inr (Returned, s))"
  using assms by (rule qscheduler_stay)

theorem scheduler_without_other_ready_returns_unchanged_witness:
  "circular_chain (solo READY (Some (Heap 0))) ([] @ Heap 0 # []) \<and>
   circular_chain (solo FINISHED (Some (Heap 0))) ([] @ Heap 0 # []) \<and>
   ready (threads (solo READY (Some (Heap 0)))) (Heap 0) \<and>
   \<not> ready (threads (solo FINISHED (Some (Heap 0)))) (Heap 0) \<and>
   qscheduler (solo READY (Some (Heap 0))) = Some (Inr (Returned, solo READY (Some (Heap 0)))) \<and>
   qscheduler (solo FINISHED (Some (Heap 0))) =
     Some (Inr (Returned, solo FINISHED (Some (Heap 0))))"
proof -
  have h: "circular_chain (solo st (Some (Heap 0))) ([] @ Heap 0 # [])"
    "current (solo st (Some (Heap 0))) = Some (Heap 0)"
    "\<forall>u\<in>set ([] @ []). \<not> ready (threads (solo st (Some (Heap 0)))) u" for st
    by (simp_all add: circular_chain_def circular_def solo_def blank_def)
  have "ready (threads (solo READY (Some (Heap 0)))) (Heap 0)"
    "\<not> ready (threads (solo FINISHED (Some (Heap 0)))) (Heap 0)"
    by (simp_all add: ready_def solo_def blank_def)
  with scheduler_without_other_ready_returns_unchanged [OF h, of READY]
    scheduler_without_other_ready_returns_unchanged [OF h, of FINISHED] h show ?thesis
    by simp
qed

section \<open>Adopting the host\<close>

text \<open>
  C8, against the modelled \<^verbatim>\<open>qthread_init\<close>. On a well-formed registry \<open>xs\<close> that does
  not hold the host's record (before any create, the empty one), init returns with the
  registry \<open>xs\<close> followed by the host's record, whose \<^verbatim>\<open>stack\<close> is \<^verbatim>\<open>NULL\<close>, whose
  state is READY and whose context is the one wrapped; \<^verbatim>\<open>current\<close> is untouched. And the
  scheduler of qthread.c gives control back to a registered host: called by a current
  thread \<open>c\<close> when the host's record is READY and no other record is, it switches from
  \<open>c\<close> to the host.
\<close>

theorem init_adopts_host_and_scheduler_returns_to_it:
  "(wf_state s xs \<longrightarrow> threads s (Host h) = None \<longrightarrow>
      (\<exists>s' r. qthread_init h raw s = Some (Inr s') \<and> registry s' (xs @ [Host h]) \<and>
         threads s' (Host h) = Some r \<and> stack r = None \<and> state r = READY \<and>
         ctx r = ctx raw \<and> current s' = current s)) \<and>
   (circular_chain s2 (pre @ c # post) \<longrightarrow> current s2 = Some c \<longrightarrow>
      post @ pre = us @ Host h # vs \<longrightarrow> (\<forall>u\<in>set (us @ vs). \<not> ready (threads s2) u) \<longrightarrow>
      ready (threads s2) (Host h) \<longrightarrow>
      qscheduler s2 = Some (Inr (SwapContext c (Host h), s2\<lparr>current := Some (Host h)\<rparr>)))"
proof (intro conjI impI)
  assume wf: "wf_state s xs" and fresh: "threads s (Host h) = None"
  from qthread_init_registers [OF wf fresh, of raw] obtain s' where
    s': "qthread_init h raw s = Some (Inr s')" "wf_state s' (xs @ [Host h])"
    "current s' = current s"
    "relinked ((threads s)(Host h \<mapsto> raw\<lparr>state := READY, stack := None\<rparr>)) (threads s')"
    by blast
  from relinked_Some [OF s'(4), of "Host h"] obtain r where
    "threads s' (Host h) = Some r" "stack r = None" "state r = READY" "ctx r = ctx raw"
    by auto
  with s'(1,2,3) show "\<exists>s' r. qthread_init h raw s = Some (Inr s') \<and>
      registry s' (xs @ [Host h]) \<and> threads s' (Host h) = Some r \<and> stack r = None \<and>
      state r = READY \<and> ctx r = ctx raw \<and> current s' = current s"
    by (auto simp: wf_state_def)
next
  assume a: "circular_chain s2 (pre @ c # post)" "current s2 = Some c"
    "post @ pre = us @ Host h # vs" "\<forall>u\<in>set (us @ vs). \<not> ready (threads s2) u"
    "ready (threads s2) (Host h)"
  from a(4) have "\<forall>u\<in>set us. \<not> ready (threads s2) u" by simp
  with a(1,2,3) show "qscheduler s2 =
      Some (Inr (SwapContext c (Host h), s2\<lparr>current := Some (Host h)\<rparr>))"
    using a(5) by (rule qscheduler_switch)
qed

theorem init_adopts_host_and_scheduler_returns_to_it_witness:
  "wf_state init_state [] \<and> threads init_state (Host 0) = None \<and>
   (\<exists>s' r. qthread_init 0 (blank RUNNING None) init_state = Some (Inr s') \<and>
      registry s' [Host 0] \<and> threads s' (Host 0) = Some r \<and> stack r = None \<and>
      state r = READY) \<and>
   circular_chain (hosted (Some (Heap 1))) ([Host 0] @ Heap 1 # []) \<and>
   ready (threads (hosted (Some (Heap 1)))) (Host 0) \<and>
   qscheduler (hosted (Some (Heap 1))) =
     Some (Inr (SwapContext (Heap 1) (Host 0), hosted (Some (Host 0))))"
proof -
  note th = init_adopts_host_and_scheduler_returns_to_it
  have i: "wf_state init_state []" "threads init_state (Host 0) = None"
    by (simp_all add: wf_state_empty init_state_def)
  have a: "\<exists>s' r. qthread_init 0 (blank RUNNING None) init_state = Some (Inr s') \<and>
      registry s' [Host 0] \<and> threads s' (Host 0) = Some r \<and> stack r = None \<and>
      state r = READY"
    using th [where s = init_state and xs = "[]" and h = 0 and raw = "blank RUNNING None",
        THEN conjunct1] i
    by fastforce
  have c: "circular_chain (hosted (Some (Heap 1))) ([Host 0] @ Heap 1 # [])"
    "current (hosted (Some (Heap 1))) = Some (Heap 1)"
    "ready (threads (hosted (Some (Heap 1)))) (Host 0)"
    "(hosted (Some (Heap 1)))\<lparr>current := Some (Host 0)\<rparr> = hosted (Some (Host 0))"
    by (simp_all add: circular_chain_def circular_def hosted_def blank_def ready_def)
  have b: "qscheduler (hosted (Some (Heap 1))) =
      Some (Inr (SwapContext (Heap 1) (Host 0), hosted (Some (Host 0))))"
    using th [where ?s2.0 = "hosted (Some (Heap 1))" and pre = "[Host 0]" and c = "Heap 1"
        and post = "[]" and us = "[]" and h = 0 and vs = "[]"] c
    by simp
  from i a c(1,3) b show ?thesis by blast
qed

section \<open>The stack size\<close>

text \<open>
  C9. \<^verbatim>\<open>qthread_set_stacksize S\<close> changes the global \<^verbatim>\<open>stack_size\<close> and nothing else:
  the registry, \<^verbatim>\<open>current\<close>, every record and every buffer are as before. Let library
  calls follow on a well-formed registry, under the contract of \<^verbatim>\<open>malloc\<close>, none of them
  another \<^verbatim>\<open>qthread_set_stacksize\<close>. A thread created then gets the buffer that
  \<^verbatim>\<open>malloc(S)\<close> returned: a block requested with size \<open>S\<close>, which is also the
  \<^verbatim>\<open>ss_size\<close> of its context. That create leaves the buffers that were live before it
  live with the sizes they had, and every earlier record with the buffer it owned.
\<close>

theorem set_stacksize_scopes_to_later_creates:
  "stack_size (qthread_set_stacksize S s) = S \<and>
   thread_list (qthread_set_stacksize S s) = thread_list s \<and>
   current (qthread_set_stacksize S s) = current s \<and>
   threads (qthread_set_stacksize S s) = threads s \<and>
   stacks (qthread_set_stacksize S s) = stacks s \<and>
   (wf_state s xs \<longrightarrow> calls_ok cs (qthread_set_stacksize S s) \<longrightarrow>
      run cs (qthread_set_stacksize S s) = Some (Inr (rs, s2)) \<longrightarrow>
      (\<forall>c\<in>set cs. \<not> is_set_stacksize c) \<longrightarrow>
      malloc_fresh env s2 \<longrightarrow> malloc_thread env = Some n \<longrightarrow>
      malloc_stack env = Some b \<longrightarrow> getcontext_rc env \<noteq> - 1 \<longrightarrow>
      (\<exists>s' r sz. qthread_create env nt sr ar s2 =
           Some (Inr ((0, if nt then Some (Some (Heap n)) else None), s')) \<and>
         threads s' (Heap n) = Some r \<and> stack r = Some b \<and>
         stacks s' b = Some sz \<and> S \<le> sz \<and> sz = S \<and> ss_size (ctx r) = S \<and>
         (\<forall>k. k \<noteq> b \<longrightarrow> stacks s' k = stacks s2 k) \<and>
         (\<forall>x. x \<noteq> Heap n \<longrightarrow> owned_block (threads s') x = owned_block (threads s2) x)))"
proof (intro conjI impI)
  assume wf: "wf_state s xs" and ok: "calls_ok cs (qthread_set_stacksize S s)"
    and rn: "run cs (qthread_set_stacksize S s) = Some (Inr (rs, s2))"
    and ns: "\<forall>c\<in>set cs. \<not> is_set_stacksize c"
    and fresh: "malloc_fresh env s2"
    and e: "malloc_thread env = Some n" "malloc_stack env = Some b" "getcontext_rc env \<noteq> - 1"
  from wf have "wf_state (qthread_set_stacksize S s) xs"
    by (simp add: set_stacksize_wf)
  from run_wf [OF this ok rn] obtain xs2 where wf2: "wf_state s2 xs2" by blast
  from run_stack_size [OF rn ns] have sz: "stack_size s2 = S"
    by (simp add: qthread_set_stacksize_def)
  from qthread_create_success [OF wf2 fresh e, of nt sr ar] obtain s' where
    s': "qthread_create env nt sr ar s2 =
      Some (Inr ((0, if nt then Some (Some (Heap n)) else None), s'))"
    "stacks s' = (stacks s2)(b \<mapsto> stack_size s2)"
    "relinked ((threads s2)(Heap n \<mapsto> created_record env (stack_size s2) sr ar b)) (threads s')"
    by blast
  from relinked_Some [OF s'(3), of "Heap n"] obtain r where
    r: "threads s' (Heap n) = Some r" "stack r = Some b" "ss_size (ctx r) = S"
    by (auto simp: created_record_def sz)
  have ob: "\<forall>x. x \<noteq> Heap n \<longrightarrow> owned_block (threads s') x = owned_block (threads s2) x"
    unfolding relinked_owned [OF s'(3)] by (simp add: owned_block_def)
  have "stacks s' b = Some S" "\<forall>k. k \<noteq> b \<longrightarrow> stacks s' k = stacks s2 k"
    using s'(2) sz by simp_all
  with s'(1) r ob show "\<exists>s' r sz. qthread_create env nt sr ar s2 =
         Some (Inr ((0, if nt then Some (Some (Heap n)) else None), s')) \<and>
       threads s' (Heap n) = Some r \<and> stack r = Some b \<and>
       stacks s' b = Some sz \<and> S \<le> sz \<and> sz = S \<and> ss_size (ctx r) = S \<and>
       (\<forall>k. k \<noteq> b \<longrightarrow> stacks s' k = stacks s2 k) \<and>
       (\<forall>x. x \<noteq> Heap n \<longrightarrow> owned_block (threads s') x = owned_block (threads s2) x)"
    by auto
qed (simp_all add: qthread_set_stacksize_def)

theorem set_stacksize_scopes_to_later_creates_witness:
  "\<exists>sa rs s2 s' r.
     run [Create (successful 1) True 0 0] (qthread_set_stacksize 8192 init_state) =
       Some (Inr ([Created 0 (Some (Some (Heap 1)))], sa)) \<and>
     run [Schedule] (qthread_set_stacksize 4096 sa) = Some (Inr (rs, s2)) \<and>
     qthread_create (successful 2) True 0 0 s2 = Some (Inr ((0, Some (Some (Heap 2))), s')) \<and>
     threads s' (Heap 2) = Some r \<and> stack r = Some 2 \<and>
     stacks s' 2 = Some 4096 \<and> stacks s' 1 = Some 8192"
proof -
  have "\<exists>sa rs s2.
      run [Create (successful 1) True 0 0] (qthread_set_stacksize 8192 init_state) =
        Some (Inr ([Created 0 (Some (Some (Heap 1)))], sa)) \<and>
      calls_ok [Schedule] (qthread_set_stacksize 4096 sa) \<and>
      run [Schedule] (qthread_set_stacksize 4096 sa) = Some (Inr (rs, s2)) \<and>
      malloc_fresh (successful 2) s2 \<and> stacks s2 1 = Some 8192"
    by (simp add: run_defs)
  then obtain sa rs s2 where
    a: "run [Create (successful 1) True 0 0] (qthread_set_stacksize 8192 init_state) =
      Some (Inr ([Created 0 (Some (Some (Heap 1)))], sa))"
    and ok: "calls_ok [Schedule] (qthread_set_stacksize 4096 sa)"
    and rn: "run [Schedule] (qthread_set_stacksize 4096 sa) = Some (Inr (rs, s2))"
    and fresh: "malloc_fresh (successful 2) s2" and old: "stacks s2 1 = Some 8192"
    by blast
  have "wf_state (qthread_set_stacksize 8192 init_state) []"
    by (simp add: wf_state_empty init_state_def qthread_set_stacksize_def)
  moreover have "calls_ok [Create (successful 1) True 0 0]
      (qthread_set_stacksize 8192 init_state)"
    by (simp add: run_defs)
  ultimately obtain xs where wf: "wf_state sa xs"
    using run_wf [OF _ _ a] by blast
  have ns: "\<forall>c\<in>set [Schedule]. \<not> is_set_stacksize c" by simp
  have e: "malloc_thread (successful 2) = Some 2" "malloc_stack (successful 2) = Some 2"
    "getcontext_rc (successful 2) \<noteq> - 1"
    by (simp_all add: successful_def)
  from set_stacksize_scopes_to_later_creates
    [where S = 4096 and s = sa and xs = xs and cs = "[Schedule]" and rs = rs and ?s2.0 = s2
      and env = "successful 2" and n = 2 and b = 2 and nt = True and sr = 0 and ar = 0]
    wf ok rn ns fresh e
  obtain s' r where
    "qthread_create (successful 2) True 0 0 s2 = Some (Inr ((0, Some (Some (Heap 2))), s'))"
    "threads s' (Heap 2) = Some r" "stack r = Some 2" "stacks s' 2 = Some 4096"
    "\<forall>k. k \<noteq> 2 \<longrightarrow> stacks s' k = stacks s2 k"
    by auto
  with a rn old show ?thesis by auto
qed

section \<open>The current pointer\<close>

text \<open>
  C10. \<^verbatim>\<open>current\<close> starts as \<^verbatim>\<open>NULL\<close> and only a transfer of control by the scheduler
  assigns it: after any sequence of library calls from the initial state in which no call
  of the scheduler (made directly, by exit or by the waiting loop of join) has transferred
  control, \<^verbatim>\<open>qthread_self\<close> returns \<^verbatim>\<open>NULL\<close>.
\<close>

theorem self_is_null_before_first_dispatch:
  assumes "run cs init_state = Some (Inr (rs, s))"
    and "\<forall>r\<in>set rs. transfer_of r = Returned"
  shows "qthread_self s = None"
proof -
  from run_current [OF assms] have "current s = current init_state" .
  then show ?thesis by (simp add: qthread_self_def init_state_def)
qed

theorem self_is_null_before_first_dispatch_witness:
  "\<exists>rs s. run [Schedule, SetStacksize 4096, Create (successful 1) True 0 0, Self] init_state =
       Some (Inr (rs, s)) \<and>
     rs = [Scheduled Returned, Done, Created 0 (Some (Some (Heap 1))), Handle None] \<and>
     qthread_self s = None"
proof -
  have "\<exists>rs s. run [Schedule, SetStacksize 4096, Create (successful 1) True 0 0, Self]
      init_state = Some (Inr (rs, s)) \<and>
    rs = [Scheduled Returned, Done, Created 0 (Some (Some (Heap 1))), Handle None]"
    by (simp add: run_defs)
  then obtain rs s where
    r: "run [Schedule, SetStacksize 4096, Create (successful 1) True 0 0, Self] init_state =
      Some (Inr (rs, s))"
    and rs: "rs = [Scheduled Returned, Done, Created 0 (Some (Some (Heap 1))), Handle None]"
    by blast
  from rs have "\<forall>r\<in>set rs. transfer_of r = Returned" by simp
  from self_is_null_before_first_dispatch [OF r this] r rs show ?thesis by blast
qed

end
